theory Spec2Isabelle
  imports Complex_Main
begin

section \<open>Strings and optional fields\<close>

text \<open>
  A JavaScript string is a sequence of UTF-16 code units, and \<open>===\<close> on strings compares
  these sequences. A string is therefore modelled as a list of code units. A property that
  may be missing from a JSON object is an \<open>option\<close>: \<open>None\<close> is \<open>undefined\<close>.
\<close>

type_synonym jstring = "nat list"

definition str :: "string \<Rightarrow> jstring" where
  "str s = map of_char s"

text \<open>Truthiness of an optional string: \<open>undefined\<close> and the empty string are falsy.\<close>

definition truthy :: "jstring option \<Rightarrow> bool" where
  "truthy x = (case x of None \<Rightarrow> False | Some s \<Rightarrow> s \<noteq> [])"

text \<open>\<open>x || ''\<close> on an optional string.\<close>

definition or_empty :: "jstring option \<Rightarrow> jstring" where
  "or_empty x = (case x of None \<Rightarrow> [] | Some s \<Rightarrow> s)"

text \<open>\<open>a || b\<close> on optional strings.\<close>

definition or_else :: "jstring option \<Rightarrow> jstring option \<Rightarrow> jstring option" where
  "or_else a b = (if truthy a then a else b)"

text \<open>\<open>Array.prototype.findIndex\<close>; \<open>None\<close> is the result \<open>-1\<close>.\<close>

fun findIndex :: "('a \<Rightarrow> bool) \<Rightarrow> 'a list \<Rightarrow> nat option" where
  "findIndex P [] = None"
| "findIndex P (x # xs) = (if P x then Some 0 else map_option Suc (findIndex P xs))"

section \<open>Data model\<close>

text \<open>
  The stored document is JSON: \<open>{ profile, categories }\<close>, and a category is
  \<open>{ id, title, icon, sites, children }\<close>. Every field may be missing. A field that should
  hold an array and does not is treated by the code as missing (\<open>Array.isArray\<close>), so \<open>None\<close>
  stands for both. The profile is not inspected by any operation below and is kept as an
  opaque value.
\<close>

text \<open>
  The save operation compares two site lists through \<open>JSON.stringify\<close>, which writes every
  own property of every site, in the order in which the object enumerates them. A site is
  therefore kept as the JSON object it is: the list of its properties, name and value, in
  that order. Two sites with the same fields in another order, or with one more property
  such as \<open>faviconUpdatedAt\<close>, are different values. A number is a real: the numbers of
  parsed JSON are finite, and \<open>0\<close> and \<open>-0\<close>, which \<open>JSON.stringify\<close> writes alike, are one
  value.
\<close>

datatype json =
    JNull
  | JBool bool
  | JNum real
  | JStr jstring
  | JArr "json list"
  | JObj "(jstring \<times> json) list"

type_synonym site = "(jstring \<times> json) list"

text \<open>
  The handlers read \<open>title\<close> and \<open>url\<close> of a stored site, and only to compare them with
  \<open>===\<close> to a string. \<open>s_title s = Some t\<close> says that the property is the string \<open>t\<close>; the
  result is \<open>None\<close> when the property is missing or is not a string.
\<close>

definition str_prop :: "site \<Rightarrow> string \<Rightarrow> jstring option" where
  "str_prop s k = (case map_of s (str k) of Some (JStr v) \<Rightarrow> Some v | _ \<Rightarrow> None)"

definition s_title :: "site \<Rightarrow> jstring option" where
  "s_title s = str_prop s ''title''"

definition s_url :: "site \<Rightarrow> jstring option" where
  "s_url s = str_prop s ''url''"

text \<open>
  A property \<open>k: v\<close> of an object literal whose value is an optional string. A property
  whose value is \<open>undefined\<close> is not written by \<open>JSON.stringify\<close> and is left out.
\<close>

definition opt_prop :: "string \<Rightarrow> jstring option \<Rightarrow> site" where
  "opt_prop k v = (case v of None \<Rightarrow> [] | Some x \<Rightarrow> [(str k, JStr x)])"

datatype category = Category
  (c_id: "jstring option")
  (c_title: "jstring option")
  (c_icon: "jstring option")
  (c_sites: "site list option")
  (c_children: "category list option")

record doc =
  profile :: "jstring option"
  categories :: "category list option"

text \<open>\<open>Array.isArray(x) ? x : []\<close> for the two array-valued fields.\<close>

definition safe_sites :: "category \<Rightarrow> site list" where
  "safe_sites c = (case c_sites c of None \<Rightarrow> [] | Some ss \<Rightarrow> ss)"

definition kids :: "category \<Rightarrow> category list" where
  "kids c = (case c_children c of None \<Rightarrow> [] | Some cs \<Rightarrow> cs)"

definition cats_of :: "category list option \<Rightarrow> category list" where
  "cats_of x = (case x of None \<Rightarrow> [] | Some cs \<Rightarrow> cs)"

lemma size_list_kids: "size_list size (kids c) < size c"
  by (cases c) (simp add: kids_def split: option.splits)

lemma size_kids [termination_simp]: "x \<in> set (kids c) \<Longrightarrow> size x < size c"
  using size_list_kids [of c] size_list_estimation' [of x "kids c" "size x" size] by simp

section \<open>Saving the whole tree: \<open>handleSaveAdminData\<close>\<close>

text \<open>
  The reserved category has the id \<open>uncategorized\<close>, its title is the three code units
  U+672A U+5206 U+7C7B, and the default folder icon is U+1F4C1 (a surrogate pair).
\<close>

definition UNC_ID :: jstring where
  "UNC_ID = str ''uncategorized''"

definition UNC_TITLE :: jstring where
  "UNC_TITLE = [26410, 20998, 31867]"

definition FOLDER_ICON :: jstring where
  "FOLDER_ICON = [55357, 56513]"

definition is_unc :: "category \<Rightarrow> bool" where
  "is_unc c = (c_id c = Some UNC_ID \<or> c_title c = Some UNC_TITLE)"

definition new_unc :: category where
  "new_unc = Category (Some UNC_ID) (Some UNC_TITLE) (Some FOLDER_ICON) (Some []) (Some [])"

text \<open>The \<open>else\<close> branch of \<open>ensureUncategorized\<close>: the five field repairs on the node found.\<close>

definition repair_unc :: "category \<Rightarrow> category" where
  "repair_unc u = Category
     (if truthy (c_id u) then c_id u else Some UNC_ID)
     (if truthy (c_title u) then c_title u else Some UNC_TITLE)
     (case c_icon u of None \<Rightarrow> Some FOLDER_ICON | Some i \<Rightarrow> Some i)
     (case c_sites u of None \<Rightarrow> Some [] | Some ss \<Rightarrow> Some ss)
     (case c_children u of None \<Rightarrow> Some [] | Some cs \<Rightarrow> Some cs)"

text \<open>
  \<open>ensureUncategorized\<close> mutates the array it is given; the model returns the new array.
  \<open>cats.splice(idx, 1)\<close> followed by \<open>cats.push(u)\<close> moves the element at \<open>idx\<close> to the end.
\<close>

definition ensureUncategorized :: "category list \<Rightarrow> category list" where
  "ensureUncategorized cats =
     (let cats1 = (case findIndex is_unc cats of
                     None \<Rightarrow> cats @ [new_unc]
                   | Some i \<Rightarrow> cats[i := repair_unc (cats ! i)])
      in case findIndex is_unc cats1 of
           None \<Rightarrow> cats1
         | Some idx \<Rightarrow>
             if idx \<noteq> length cats1 - 1
             then take idx cats1 @ drop (Suc idx) cats1 @ [cats1 ! idx]
             else cats1)"

text \<open>The normal forms that \<open>isSameStructure\<close> and \<open>isSameMeta\<close> serialise and compare.\<close>

datatype snode = SNode jstring jstring "snode list"

datatype mnode = MNode jstring jstring jstring "mnode list"

fun norm_structure :: "category \<Rightarrow> snode" where
  "norm_structure c = SNode (or_empty (c_id c)) (or_empty (c_title c)) (map norm_structure (kids c))"

fun norm_meta :: "category \<Rightarrow> mnode" where
  "norm_meta c = MNode (or_empty (c_id c)) (or_empty (c_title c)) (or_empty (c_icon c))
                       (map norm_meta (kids c))"

declare norm_structure.simps [simp del]

declare norm_meta.simps [simp del]

text \<open>
  \<open>JSON.stringify\<close> is injective on these normal forms (objects with a fixed key order whose
  leaves are strings), so comparing the two serialisations is comparing the normal forms.
  In the same way \<open>walk\<close> below compares the serialisations of two site lists. A site list
  is a list of JSON objects with their properties in serialisation order, on which
  \<open>JSON.stringify\<close> is injective as well, so that comparison is equality of the lists.
\<close>

definition isSameStructure :: "category list option \<Rightarrow> category list option \<Rightarrow> bool" where
  "isSameStructure aCats bCats =
     (map norm_structure (cats_of aCats) = map norm_structure (cats_of bCats))"

definition isSameMeta :: "category list option \<Rightarrow> category list option \<Rightarrow> bool" where
  "isSameMeta aCats bCats = (map norm_meta (cats_of aCats) = map norm_meta (cats_of bCats))"

text \<open>One entry of the update list: the title path pushed by \<open>walk\<close> and the new site list.\<close>

record update =
  segments :: "jstring option list"
  node_sites :: "site list"

text \<open>
  \<open>byId\<close> is a \<open>Map\<close> built from the pairs \<open>[c.id || c.title, c]\<close>: for a key that occurs
  twice the later pair replaces the earlier one, so a lookup returns the last node with
  that key.
\<close>

definition cat_key :: "category \<Rightarrow> jstring option" where
  "cat_key c = or_else (c_id c) (c_title c)"

definition byId_get :: "category list \<Rightarrow> jstring option \<Rightarrow> category option" where
  "byId_get currCats k = find (\<lambda>c. cat_key c = k) (rev currCats)"

text \<open>
  \<open>walk\<close> appends to the shared array \<open>updates\<close> and keeps the current title path in
  \<open>segments\<close> (push before descending, pop after). The model returns the appended entries
  and takes the path as an argument.
\<close>

function walk :: "category list \<Rightarrow> category list \<Rightarrow> jstring option list \<Rightarrow> update list" where
  "walk currCats nextCats segs =
     concat (map (\<lambda>nc.
        case byId_get currCats (cat_key nc) of
          None \<Rightarrow> []
        | Some cc \<Rightarrow>
            (if safe_sites cc \<noteq> safe_sites nc
             then [\<lparr>segments = segs @ [c_title nc], node_sites = safe_sites nc\<rparr>]
             else [])
            @ walk (kids cc) (kids nc) (segs @ [c_title nc])) nextCats)"
  by pat_completeness auto
termination
proof (relation "measure (\<lambda>(c, n, s). size_list size n)")
  show "wf (measure (\<lambda>(c, n, s). size_list size n))" by simp
next
  fix currCats nextCats :: "category list" and segs :: "jstring option list" and nc cc
  assume "nc \<in> set nextCats"
  then have "size_list size (kids nc) < size_list size nextCats"
    using size_list_kids [of nc] size_list_estimation' [of nc nextCats "size nc" size] by simp
  then show "((kids cc, kids nc, segs @ [c_title nc]), (currCats, nextCats, segs)) \<in> measure (\<lambda>(c, n, s). size_list size n)"
    by simp
qed

declare walk.simps [simp del]

datatype save_outcome =
    Rejected
  | InitWrite doc
  | SnapshotWrite doc
  | SnapshotMetaWrite doc
  | NoopSkip
  | BulkWrite "update list"

text \<open>
  \<open>getNavigationData\<close> on the value stored under the snapshot key: a snapshot without
  \<open>categories\<close> counts as no data.
\<close>

definition getNavigationData :: "doc option \<Rightarrow> doc option" where
  "getNavigationData stored =
     (case stored of
        None \<Rightarrow> None
      | Some snapshot \<Rightarrow> (case categories snapshot of None \<Rightarrow> None | Some cs \<Rightarrow> Some snapshot))"

text \<open>
  The decision of \<open>handleSaveAdminData\<close> for a POST request, with the key-value store bound
  and its reads and writes succeeding. The first argument is the stored snapshot, the second
  is \<open>body.data\<close>. The outcome says which write the handler issues: the whole incoming tree
  (\<open>InitWrite\<close>, and modes \<open>snapshot\<close> and \<open>snapshot-meta\<close>), no write (\<open>noop\<close>), or the update
  list passed to \<open>putFolderNodesBulk\<close> (\<open>bulk-sites\<close>).
\<close>

definition handleSaveAdminData :: "doc option \<Rightarrow> doc option \<Rightarrow> save_outcome" where
  "handleSaveAdminData stored body_data =
     (case body_data of
        None \<Rightarrow> Rejected
      | Some data \<Rightarrow>
          (case getNavigationData stored of
             None \<Rightarrow> InitWrite data
           | Some currentData \<Rightarrow>
               (let incoming = data\<lparr>categories := map_option ensureUncategorized (categories data)\<rparr>
                in if \<not> isSameStructure (categories currentData) (categories incoming)
                   then SnapshotWrite incoming
                   else if \<not> isSameMeta (categories currentData) (categories incoming)
                   then SnapshotMetaWrite incoming
                   else (let updates = walk (cats_of (categories currentData))
                                            (cats_of (categories incoming)) []
                         in if updates = [] then NoopSkip else BulkWrite updates))))"

section \<open>String operations used by the storage layer\<close>

text \<open>
  \<open>String.prototype.trim\<close> removes the code units of the ECMAScript classes WhiteSpace and
  LineTerminator from both ends.
\<close>

definition is_ws :: "nat \<Rightarrow> bool" where
  "is_ws c = (c \<in> set [9, 10, 11, 12, 13, 32, 160, 5760, 8232, 8233, 8239, 8287, 12288, 65279]
              \<or> (8192 \<le> c \<and> c \<le> 8202))"

definition trim :: "jstring \<Rightarrow> jstring" where
  "trim s = rev (dropWhile is_ws (rev (dropWhile is_ws s)))"

text \<open>
  \<open>s.split('/')\<close>: the pieces between the separators, empty pieces included; and
  \<open>xs.join('/')\<close>. The separator is the code unit 47.
\<close>

fun split_str :: "jstring \<Rightarrow> jstring list" where
  "split_str [] = [[]]"
| "split_str (c # cs) =
     (if c = 47 then [] # split_str cs
      else (case split_str cs of [] \<Rightarrow> [[c]] | w # ws \<Rightarrow> (c # w) # ws))"

fun join_str :: "jstring list \<Rightarrow> jstring" where
  "join_str [] = []"
| "join_str [x] = x"
| "join_str (x # y # ys) = x @ [47] @ join_str (y # ys)"

section \<open>The storage layer: \<open>getFolderNode\<close> and \<open>putFolderNodesBulk\<close>\<close>

text \<open>
  \<open>pathKey\<close>: each segment is read as a string (\<open>String(s || '')\<close>), trimmed, empty
  results are dropped, and the rest is joined with \<open>/\<close>.
\<close>

definition pathKey :: "jstring option list \<Rightarrow> jstring" where
  "pathKey segs = join_str (filter (\<lambda>s. s \<noteq> []) (map (\<lambda>s. trim (or_empty s)) segs))"

text \<open>
  \<open>dedup\<close> is a \<open>Map\<close> from path keys to updates. It keeps its keys in the order of their
  first insertion; setting a key that is present replaces its value in place.
\<close>

fun map_set :: "'k \<Rightarrow> 'v \<Rightarrow> ('k \<times> 'v) list \<Rightarrow> ('k \<times> 'v) list" where
  "map_set k v [] = [(k, v)]"
| "map_set k v ((k', v') # m) = (if k' = k then (k, v) # m else (k', v') # map_set k v m)"

fun dedup_of :: "update list \<Rightarrow> (jstring \<times> update) list \<Rightarrow> (jstring \<times> update) list" where
  "dedup_of [] m = m"
| "dedup_of (u # us) m =
     (let key = pathKey (segments u)
      in if key = [] then dedup_of us m else dedup_of us (map_set key u m))"

text \<open>\<open>k.split('/').filter(Boolean)\<close>: the segments that are read back from a key.\<close>

definition key_segments :: "jstring \<Rightarrow> jstring list" where
  "key_segments k = filter (\<lambda>s. s \<noteq> []) (split_str k)"

definition set_sites :: "category \<Rightarrow> site list \<Rightarrow> category" where
  "set_sites c ss = Category (c_id c) (c_title c) (c_icon c) (Some ss) (c_children c)"

definition set_children :: "category \<Rightarrow> category list \<Rightarrow> category" where
  "set_children c cs = Category (c_id c) (c_title c) (c_icon c) (c_sites c) (Some cs)"

text \<open>
  \<open>updateNode\<close> of \<open>putFolderNodesBulk\<close>. It assigns \<open>hit.sites\<close> in the snapshot and returns
  whether it did; the model returns this flag together with the array after the call.
  The array changes only when the flag is true.
\<close>

function updateNode ::
  "(jstring \<times> update) list \<Rightarrow> category list \<Rightarrow> jstring list \<Rightarrow> nat \<Rightarrow> bool \<times> category list" where
  "updateNode dedup cats segs idx =
     (if idx \<ge> length segs then (False, cats)
      else
        (case findIndex (\<lambda>c. c_title c = Some (segs ! idx)) cats of
           None \<Rightarrow> (False, cats)
         | Some h \<Rightarrow>
             if idx = length segs - 1
             then (let safeSites = (case map_of dedup (pathKey (map Some segs)) of
                                      None \<Rightarrow> []
                                    | Some src \<Rightarrow> node_sites src)
                   in (True, cats[h := set_sites (cats ! h) safeSites]))
             else (let r = updateNode dedup (kids (cats ! h)) segs (idx + 1)
                   in if fst r then (True, cats[h := set_children (cats ! h) (snd r)])
                      else (False, cats))))"
  by pat_completeness auto
termination
  by (relation "measure (\<lambda>(d, c, segs, idx). length segs - idx)") auto

declare updateNode.simps [simp del]

text \<open>
  \<open>putFolderNodesBulk\<close>, as a function from the stored snapshot to the stored snapshot:
  nothing happens for an empty batch or without a snapshot; otherwise every entry of
  \<open>dedup\<close> is applied to the snapshot in turn, the result of \<open>updateNode\<close> is not looked at,
  and the snapshot is written once.
\<close>

fun apply_entries ::
  "(jstring \<times> update) list \<Rightarrow> (jstring \<times> update) list \<Rightarrow> category list \<Rightarrow> category list" where
  "apply_entries dedup [] cats = cats"
| "apply_entries dedup ((k, u) # es) cats =
     (let segs = key_segments k
      in if segs = [] then apply_entries dedup es cats
         else apply_entries dedup es (snd (updateNode dedup cats segs 0)))"

definition putFolderNodesBulk :: "doc option \<Rightarrow> update list \<Rightarrow> doc option" where
  "putFolderNodesBulk stored updates =
     (if updates = [] then stored
      else (let dedup = dedup_of updates []
            in case getNavigationData stored of
                 None \<Rightarrow> stored
               | Some snapshot \<Rightarrow>
                   Some (snapshot\<lparr>categories :=
                     Some (apply_entries dedup dedup (cats_of (categories snapshot)))\<rparr>)))"

text \<open>
  \<open>findNode\<close> of \<open>getFolderNode\<close> walks the segments by title, first match at every level.
\<close>

function findNode :: "category list \<Rightarrow> jstring list \<Rightarrow> nat \<Rightarrow> category option" where
  "findNode cats segs idx =
     (if idx \<ge> length segs then None
      else (case find (\<lambda>c. c_title c = Some (segs ! idx)) cats of
              None \<Rightarrow> None
            | Some hit \<Rightarrow>
                if idx = length segs - 1 then Some hit
                else findNode (kids hit) segs (idx + 1)))"
  by pat_completeness auto
termination
  by (relation "measure (\<lambda>(c, segs, idx). length segs - idx)") auto

declare findNode.simps [simp del]

text \<open>
  The node object that \<open>getFolderNode\<close> returns, reduced to its \<open>sites\<close>: the site list of
  the node found, and the empty list when the path does not resolve or there is no
  snapshot. For the empty path the result is built from \<open>snapshot.sites\<close>, a field that the
  snapshot does not have, so the list is empty as well.
\<close>

definition getFolderNode :: "doc option \<Rightarrow> jstring list \<Rightarrow> site list" where
  "getFolderNode stored segs =
     (case getNavigationData stored of
        None \<Rightarrow> []
      | Some snapshot \<Rightarrow>
          if segs = [] then []
          else (case findNode (cats_of (categories snapshot)) segs 0 of
                  None \<Rightarrow> []
                | Some target \<Rightarrow> safe_sites target))"

text \<open>The stored snapshot after the save operation has issued its write.\<close>

fun stored_after :: "doc option \<Rightarrow> save_outcome \<Rightarrow> doc option" where
  "stored_after stored Rejected = stored"
| "stored_after stored (InitWrite d) = Some d"
| "stored_after stored (SnapshotWrite d) = Some d"
| "stored_after stored (SnapshotMetaWrite d) = Some d"
| "stored_after stored NoopSkip = stored"
| "stored_after stored (BulkWrite us) = putFolderNodesBulk stored us"

section \<open>HTTP responses\<close>

text \<open>
  \<open>HTTP_STATUS\<close> is an object literal with seven members; reading any other member yields
  \<open>undefined\<close>. \<open>createErrorResponse(error, status = HTTP_STATUS.BAD_REQUEST)\<close> has a default
  parameter, which JavaScript uses when the argument is \<open>undefined\<close>. Only the status of a
  response is modelled.
\<close>

definition HTTP_STATUS :: "string \<Rightarrow> nat option" where
  "HTTP_STATUS = map_of
     [(''OK'', 200), (''BAD_REQUEST'', 400), (''UNAUTHORIZED'', 401), (''NOT_FOUND'', 404),
      (''METHOD_NOT_ALLOWED'', 405), (''INTERNAL_SERVER_ERROR'', 500),
      (''SERVICE_UNAVAILABLE'', 503)]"

definition createErrorResponse :: "nat option \<Rightarrow> nat option" where
  "createErrorResponse status =
     (case status of None \<Rightarrow> HTTP_STATUS ''BAD_REQUEST'' | Some s \<Rightarrow> Some s)"

definition createSuccessResponse :: "nat option" where
  "createSuccessResponse = HTTP_STATUS ''OK''"

section \<open>Single-site handlers on root categories\<close>

text \<open>The default site icon is U+1F310 (a surrogate pair).\<close>

definition GLOBE_ICON :: jstring where
  "GLOBE_ICON = [55356, 57104]"

record add_site_body =
  b_categoryId :: "jstring option"
  b_title :: "jstring option"
  b_url :: "jstring option"
  b_description :: "jstring option"
  b_icon :: "jstring option"

text \<open>
  \<open>handleAddSite\<close> for a POST request with a JSON object as body. The arguments are the
  favicon path that the favicon step binds to a url (\<open>None\<close> when the url has no host), the
  root categories of the current data, and the body. The result is the response status and
  the root categories of the stored data afterwards. Reading \<open>.sites.find\<close> of a category
  without a \<open>sites\<close> array throws, which the handler answers with status 500. The new site
  is the object literal \<open>{ title, description, url, icon }\<close>, to which \<open>favicon\<close> is added
  when the url has a host.
\<close>

definition handleAddSite ::
  "(jstring \<Rightarrow> jstring option) \<Rightarrow> category list \<Rightarrow> add_site_body \<Rightarrow> nat option \<times> category list" where
  "handleAddSite favicon_of cats body =
     (if \<not> truthy (b_categoryId body) \<or> \<not> truthy (b_title body) \<or> \<not> truthy (b_url body)
         \<or> \<not> truthy (b_description body)
      then (createErrorResponse (HTTP_STATUS ''BAD_REQUEST''), cats)
      else
        (case findIndex (\<lambda>cat. c_id cat = b_categoryId body) cats of
           None \<Rightarrow> (createErrorResponse (HTTP_STATUS ''NOT_FOUND''), cats)
         | Some categoryIndex \<Rightarrow>
             (case c_sites (cats ! categoryIndex) of
                None \<Rightarrow> (createErrorResponse (HTTP_STATUS ''INTERNAL_SERVER_ERROR''), cats)
              | Some sites \<Rightarrow>
                  (case find (\<lambda>site. s_title site = b_title body \<or> s_url site = b_url body) sites of
                     Some existingSite \<Rightarrow> (createErrorResponse (HTTP_STATUS ''CONFLICT''), cats)
                   | None \<Rightarrow>
                       (let newSite = opt_prop ''title'' (b_title body)
                                      @ opt_prop ''description'' (b_description body)
                                      @ opt_prop ''url'' (b_url body)
                                      @ opt_prop ''icon'' (if truthy (b_icon body) then b_icon body
                                                            else Some GLOBE_ICON)
                                      @ opt_prop ''favicon'' (favicon_of (or_empty (b_url body)))
                        in (createSuccessResponse,
                            cats[categoryIndex :=
                                   set_sites (cats ! categoryIndex) (sites @ [newSite])]))))))"

text \<open>
  \<open>handleMoveSite\<close> for a PATCH request: the arguments are the root categories, the route
  parameters \<open>categoryId\<close> and \<open>siteTitle\<close>, and \<open>body.targetCategoryId\<close>.
  \<open>splice(siteIndex, 1)\<close> removes the site from the source list, \<open>push\<close> appends it to the
  target list; when source and target are the same category both act on the same array.
\<close>

definition handleMoveSite ::
  "category list \<Rightarrow> jstring \<Rightarrow> jstring \<Rightarrow> jstring option \<Rightarrow> nat option \<times> category list" where
  "handleMoveSite cats categoryId siteTitle targetCategoryId =
     (if \<not> truthy targetCategoryId
      then (createErrorResponse (HTTP_STATUS ''BAD_REQUEST''), cats)
      else
        (case findIndex (\<lambda>cat. c_id cat = Some categoryId) cats of
           None \<Rightarrow> (createErrorResponse (HTTP_STATUS ''NOT_FOUND''), cats)
         | Some sourceCategoryIndex \<Rightarrow>
             (case findIndex (\<lambda>cat. c_id cat = targetCategoryId) cats of
                None \<Rightarrow> (createErrorResponse (HTTP_STATUS ''NOT_FOUND''), cats)
              | Some targetCategoryIndex \<Rightarrow>
                  (case c_sites (cats ! sourceCategoryIndex) of
                     None \<Rightarrow> (createErrorResponse (HTTP_STATUS ''INTERNAL_SERVER_ERROR''), cats)
                   | Some sourceSites \<Rightarrow>
                       (case findIndex (\<lambda>site. s_title site = Some siteTitle) sourceSites of
                          None \<Rightarrow> (createErrorResponse (HTTP_STATUS ''NOT_FOUND''), cats)
                        | Some siteIndex \<Rightarrow>
                            (let siteToMove = sourceSites ! siteIndex;
                                 cats1 = cats[sourceCategoryIndex :=
                                           set_sites (cats ! sourceCategoryIndex)
                                             (take siteIndex sourceSites @ drop (Suc siteIndex) sourceSites)]
                             in case c_sites (cats1 ! targetCategoryIndex) of
                                  None \<Rightarrow> (createErrorResponse (HTTP_STATUS ''INTERNAL_SERVER_ERROR''), cats)
                                | Some targetSites \<Rightarrow>
                                    (createSuccessResponse,
                                     cats1[targetCategoryIndex :=
                                             set_sites (cats1 ! targetCategoryIndex)
                                               (targetSites @ [siteToMove])])))))))"

section \<open>Batch handlers\<close>

text \<open>
  \<open>normalizeSegments\<close> reads \<open>payload.path\<close> or else \<open>payload.segments\<close>, each an array or a
  string with \<open>/\<close> as separator; segments are trimmed and empty ones dropped.
\<close>

datatype path_value = PathArray "jstring option list" | PathString jstring

definition normalizeSegments :: "path_value option \<Rightarrow> path_value option \<Rightarrow> jstring list" where
  "normalizeSegments payload_path payload_segments =
     (case payload_path of
        Some (PathArray xs) \<Rightarrow> filter (\<lambda>s. s \<noteq> []) (map (\<lambda>s. trim (or_empty s)) xs)
      | Some (PathString p) \<Rightarrow> filter (\<lambda>s. s \<noteq> []) (map trim (split_str p))
      | None \<Rightarrow>
          (case payload_segments of
             Some (PathArray xs) \<Rightarrow> filter (\<lambda>s. s \<noteq> []) (map (\<lambda>s. trim (or_empty s)) xs)
           | Some (PathString p) \<Rightarrow> filter (\<lambda>s. s \<noteq> []) (map trim (split_str p))
           | None \<Rightarrow> []))"

definition findSiteIndexByUrl :: "site list \<Rightarrow> jstring option \<Rightarrow> nat option" where
  "findSiteIndexByUrl sites url =
     (let u = trim (or_empty url)
      in if u = [] then None else findIndex (\<lambda>s. s_url s = Some u) sites)"

text \<open>
  The site of a batch item, as the request gives it: \<open>title\<close>, \<open>url\<close>, \<open>description\<close> and
  \<open>icon\<close>, each a string or missing.
\<close>

record site_input =
  i_title :: "jstring option"
  i_url :: "jstring option"
  i_description :: "jstring option"
  i_icon :: "jstring option"

definition canInsertSite :: "site list \<Rightarrow> site_input \<Rightarrow> bool" where
  "canInsertSite sites site =
     (if \<not> truthy (i_url site) then False else findSiteIndexByUrl sites (i_url site) = None)"

text \<open>
  The \<open>mode === 'add'\<close> branch of the loop of \<open>handleBatchAddSites\<close>, on the site list of the
  working copy of the addressed node: the new list and the increment of \<open>added\<close>. The new
  site is the object literal \<open>{ title, description, url, icon }\<close>, to which \<open>favicon\<close> is
  added when the url has a host.
\<close>

definition batch_add_item ::
  "(jstring \<Rightarrow> jstring option) \<Rightarrow> site list \<Rightarrow> site_input \<Rightarrow> site list \<times> nat" where
  "batch_add_item favicon_of nodeSites site =
     (if \<not> truthy (i_title site) \<or> \<not> truthy (i_url site) then (nodeSites, 0)
      else if canInsertSite nodeSites site
      then (let s = opt_prop ''title'' (i_title site)
                    @ opt_prop ''description'' (Some (or_empty (i_description site)))
                    @ opt_prop ''url'' (i_url site)
                    @ opt_prop ''icon'' (if truthy (i_icon site) then i_icon site
                                          else Some GLOBE_ICON)
                    @ opt_prop ''favicon'' (favicon_of (or_empty (i_url site)))
            in (nodeSites @ [s], 1))
      else (nodeSites, 0))"

record delete_item =
  it_path :: "path_value option"
  it_segments :: "path_value option"
  it_titles :: "jstring option list"

text \<open>
  \<open>pendingMap\<close> of \<open>handleBatchDeleteSites\<close> maps a path key to the record
  \<open>{segments, node}\<close>, of which the segments and the site list of the node are kept. A
  record is created from \<open>getFolderNode\<close> when its key is met first and is updated in place
  afterwards.
\<close>

type_synonym pending = "(jstring \<times> (jstring list \<times> site list)) list"

fun batch_delete_loop ::
  "doc option \<Rightarrow> delete_item list \<Rightarrow> pending \<Rightarrow> nat \<Rightarrow> pending \<times> nat" where
  "batch_delete_loop stored [] pendingMap deleted = (pendingMap, deleted)"
| "batch_delete_loop stored (it # items) pendingMap deleted =
     (let segs = normalizeSegments (it_path it) (it_segments it);
          titles = it_titles it;
          key = pathKey (map Some segs)
      in if titles = [] then batch_delete_loop stored items pendingMap deleted
         else if key = [] then batch_delete_loop stored items pendingMap deleted
         else
           (let record = (case map_of pendingMap key of
                            None \<Rightarrow> (segs, getFolderNode stored segs)
                          | Some r \<Rightarrow> r);
                titleSet = filter (\<lambda>t. t \<noteq> []) (map (\<lambda>t. trim (or_empty t)) titles);
                beforeCount = length (snd record);
                sites' = filter (\<lambda>s. \<not> (case s_title s of None \<Rightarrow> False
                                           | Some t \<Rightarrow> t \<in> set titleSet)) (snd record)
            in batch_delete_loop stored items
                 (map_set key (fst record, sites') pendingMap)
                 (deleted + (beforeCount - length sites'))))"

text \<open>
  \<open>handleBatchDeleteSites\<close> for a DELETE request whose body has the array \<open>items\<close>: the
  response status, the reported \<open>deleted\<close> count, and the stored snapshot afterwards.
\<close>

definition handleBatchDeleteSites ::
  "doc option \<Rightarrow> delete_item list \<Rightarrow> nat option \<times> nat \<times> doc option" where
  "handleBatchDeleteSites stored items =
     (if items = [] then (createErrorResponse (HTTP_STATUS ''BAD_REQUEST''), 0, stored)
      else (let r = batch_delete_loop stored items [] 0;
                pendingMap = fst r;
                deleted = snd r;
                stored' = (if pendingMap = [] then stored
                           else putFolderNodesBulk stored
                                  (map (\<lambda>(k, segs, sites).
                                          \<lparr>segments = map Some segs, node_sites = sites\<rparr>) pendingMap))
            in (createSuccessResponse, deleted, stored')))"

section \<open>Path resolution in the admin client\<close>

text \<open>
  The three functions below work on \<open>this.adminData.data.categories\<close>, here the argument
  \<open>cats\<close>. An index path is a list of numbers, a title path or an id path a list of
  optional strings.

  \<open>_findCategoryWithParentByIndex\<close> returns the parent (\<open>None\<close> for the artificial root
  object), the node and its index, or \<open>None\<close> for \<open>null\<close>.
\<close>

fun findByIndex_loop ::
  "category option \<Rightarrow> category list \<Rightarrow> int list \<Rightarrow> (category option \<times> category \<times> int) option" where
  "findByIndex_loop parent arr [] = None"
| "findByIndex_loop parent arr (idx # rest) =
     (if idx < 0 \<or> idx \<ge> int (length arr) then None
      else (let node = arr ! nat idx
            in if rest = [] then Some (parent, node, idx)
               else findByIndex_loop (Some node) (kids node) rest))"

definition findCategoryWithParentByIndex ::
  "category list \<Rightarrow> int list \<Rightarrow> (category option \<times> category \<times> int) option" where
  "findCategoryWithParentByIndex cats indexPath =
     (if indexPath = [] then None else findByIndex_loop None cats indexPath)"

text \<open>
  \<open>_findIndexPathByTitlePath\<close>: the root category is matched by title or by \<open>id || title\<close>,
  the categories below by title only.
\<close>

fun titlePath_loop :: "category \<Rightarrow> jstring option list \<Rightarrow> int list option" where
  "titlePath_loop node [] = Some []"
| "titlePath_loop node (t # ts) =
     (case c_children node of
        None \<Rightarrow> None
      | Some children \<Rightarrow>
          (case findIndex (\<lambda>ch. c_title ch = t) children of
             None \<Rightarrow> None
           | Some idx \<Rightarrow> map_option (\<lambda>path. int idx # path) (titlePath_loop (children ! idx) ts)))"

definition findIndexPathByTitlePath :: "category list \<Rightarrow> jstring option list \<Rightarrow> int list option" where
  "findIndexPathByTitlePath cats titles =
     (case titles of
        [] \<Rightarrow> None
      | t0 # ts \<Rightarrow>
          (case findIndex (\<lambda>c. c_title c = t0 \<or> or_else (c_id c) (c_title c) = t0) cats of
             None \<Rightarrow> None
           | Some rootIdx \<Rightarrow>
               map_option (\<lambda>path. int rootIdx # path) (titlePath_loop (cats ! rootIdx) ts)))"

text \<open>
  \<open>_resolveTitlePath\<close>: at every level the child is picked by a truthy id equal to the
  key, or by title.
\<close>

definition pickChild :: "category list \<Rightarrow> jstring option \<Rightarrow> category option" where
  "pickChild children key =
     find (\<lambda>c. (truthy (c_id c) \<and> c_id c = key) \<or> c_title c = key) children"

fun resolveTitlePath_loop :: "category \<Rightarrow> jstring option list \<Rightarrow> jstring option list option" where
  "resolveTitlePath_loop current [] = Some []"
| "resolveTitlePath_loop current (key # keys) =
     (case c_children current of
        None \<Rightarrow> None
      | Some children \<Rightarrow>
          (case pickChild children key of
             None \<Rightarrow> None
           | Some next \<Rightarrow> map_option (\<lambda>titles. c_title next # titles) (resolveTitlePath_loop next keys)))"

definition resolveTitlePath :: "category list \<Rightarrow> jstring option list \<Rightarrow> jstring option list option" where
  "resolveTitlePath cats anyPath =
     (case anyPath of
        [] \<Rightarrow> None
      | key # keys \<Rightarrow>
          (case pickChild cats key of
             None \<Rightarrow> None
           | Some current \<Rightarrow>
               map_option (\<lambda>titles. c_title current # titles) (resolveTitlePath_loop current keys)))"

text \<open>
  Locating a node from a title path (to an index path, then by index), and from an id path
  (to a title path first).
\<close>

definition node_by_title_path ::
  "category list \<Rightarrow> jstring option list \<Rightarrow> (category option \<times> category \<times> int) option" where
  "node_by_title_path cats titles =
     (case findIndexPathByTitlePath cats titles of
        None \<Rightarrow> None
      | Some indexPath \<Rightarrow> findCategoryWithParentByIndex cats indexPath)"

definition node_by_id_path ::
  "category list \<Rightarrow> jstring option list \<Rightarrow> (category option \<times> category \<times> int) option" where
  "node_by_id_path cats anyPath =
     (case resolveTitlePath cats anyPath of
        None \<Rightarrow> None
      | Some titles \<Rightarrow> node_by_title_path cats titles)"

section \<open>The add-site form of the admin client\<close>

text \<open>
  \<open>addSite\<close> of the admin client sends its description field, or, when the field is
  empty, the title followed by a fixed suffix, to the batch endpoint; the suffix is the two
  code units U+7F51 U+7AD9.
\<close>

definition SITE_SUFFIX :: jstring where
  "SITE_SUFFIX = [32593, 31449]"

definition finalDescription :: "jstring \<Rightarrow> jstring \<Rightarrow> jstring" where
  "finalDescription description title = (if description \<noteq> [] then description else title @ SITE_SUFFIX)"

text \<open>The write plan in the vocabulary of the specification.\<close>

datatype write_plan = PlanNone | PlanPartial "update list" | PlanFull

fun plan_of :: "save_outcome \<Rightarrow> write_plan option" where
  "plan_of Rejected = None"
| "plan_of (InitWrite d) = Some PlanFull"
| "plan_of (SnapshotWrite d) = Some PlanFull"
| "plan_of (SnapshotMetaWrite d) = Some PlanFull"
| "plan_of NoopSkip = Some PlanNone"
| "plan_of (BulkWrite us) = Some (PlanPartial us)"


text \<open>
  What the specification asks of the reserved category: it is the last root category and
  its \<open>icon\<close>, \<open>sites\<close> and \<open>children\<close> fields are present.
\<close>

definition unc_complete :: "category \<Rightarrow> bool" where
  "unc_complete c = (is_unc c \<and> c_icon c \<noteq> None \<and> c_sites c \<noteq> None \<and> c_children c \<noteq> None)"

definition reserved_last :: "doc \<Rightarrow> bool" where
  "reserved_last d =
     (case categories d of None \<Rightarrow> False | Some cs \<Rightarrow> cs \<noteq> [] \<and> unc_complete (last cs))"

text \<open>The weaker property: the last root category is the reserved one, complete or not.\<close>

definition reserved_present_last :: "doc \<Rightarrow> bool" where
  "reserved_present_last d =
     (case categories d of None \<Rightarrow> False | Some cs \<Rightarrow> cs \<noteq> [] \<and> is_unc (last cs))"

text \<open>The document that a full-document write stores, if the outcome is one.\<close>

fun full_write :: "save_outcome \<Rightarrow> doc option" where
  "full_write (InitWrite d) = Some d"
| "full_write (SnapshotWrite d) = Some d"
| "full_write (SnapshotMetaWrite d) = Some d"
| "full_write _ = None"

section \<open>Positions, shapes and the lockstep comparison of the specification\<close>

text \<open>
  The node at an index path (zero-based child indices from the root list down), and the
  titles met on the way.
\<close>

fun node_at :: "category list \<Rightarrow> nat list \<Rightarrow> category option" where
  "node_at cs [] = None"
| "node_at [] (i # p) = None"
| "node_at (c # cs) (0 # p) = (if p = [] then Some c else node_at (kids c) p)"
| "node_at (c # cs) (Suc i # p) = node_at cs (i # p)"

fun title_path :: "category list \<Rightarrow> nat list \<Rightarrow> jstring option list" where
  "title_path cs [] = []"
| "title_path [] (i # p) = []"
| "title_path (c # cs) (0 # p) = c_title c # title_path (kids c) p"
| "title_path (c # cs) (Suc i # p) = title_path cs (i # p)"

text \<open>
  Two trees differ structurally at a position when a category exists there in one tree
  only (added or removed), or when the two categories there have different ids or titles
  (renamed or reordered). A missing id or title is read as the empty string.
\<close>

definition differs_at :: "category list \<Rightarrow> category list \<Rightarrow> nat list \<Rightarrow> bool" where
  "differs_at old new p =
     (case (node_at old p, node_at new p) of
        (None, None) \<Rightarrow> False
      | (Some a, Some b) \<Rightarrow>
          or_empty (c_id a) \<noteq> or_empty (c_id b) \<or> or_empty (c_title a) \<noteq> or_empty (c_title b)
      | _ \<Rightarrow> True)"

text \<open>The direct site lists of the two trees agree at a position.\<close>

definition sites_agree :: "category list \<Rightarrow> category list \<Rightarrow> nat list \<Rightarrow> bool" where
  "sites_agree os ns q =
     (case (node_at os q, node_at ns q) of
        (Some a, Some b) \<Rightarrow> safe_sites a = safe_sites b
      | _ \<Rightarrow> True)"

text \<open>A tree with every site list removed: what is left is structure and metadata.\<close>

fun erase_sites :: "category \<Rightarrow> category" where
  "erase_sites c = Category (c_id c) (c_title c) (c_icon c) None
                     (if c_children c = None then None else Some (map erase_sites (kids c)))"

declare erase_sites.simps [simp del]

text \<open>The keys \<open>id || title\<close> are pairwise different among the children of every node.\<close>

fun keys_unique :: "category \<Rightarrow> bool" where
  "keys_unique c = (distinct (map cat_key (kids c)) \<and> (\<forall>k \<in> set (kids c). keys_unique k))"

declare keys_unique.simps [simp del]

definition forest_keys_unique :: "category list \<Rightarrow> bool" where
  "forest_keys_unique cs = (distinct (map cat_key cs) \<and> (\<forall>c \<in> set cs. keys_unique c))"

text \<open>
  The comparison as the specification words it: both trees are walked in lockstep, by
  position, and every node whose site list differs is recorded with its title path.
\<close>

function lockstep :: "category list \<Rightarrow> category list \<Rightarrow> jstring option list \<Rightarrow> update list" where
  "lockstep [] ns segs = []"
| "lockstep (cc # os) [] segs = []"
| "lockstep (cc # os) (nc # ns) segs =
     (if safe_sites cc \<noteq> safe_sites nc
      then [\<lparr>segments = segs @ [c_title nc], node_sites = safe_sites nc\<rparr>]
      else [])
     @ lockstep (kids cc) (kids nc) (segs @ [c_title nc])
     @ lockstep os ns segs"
  by pat_completeness auto
termination
  by (relation "measure (\<lambda>(c, n, s). size_list size n)")
     (auto simp: less_Suc_eq intro: less_imp_le size_list_kids trans_less_add1)

text \<open>
  The id path of a position: the ids met on the way, a node without a usable id giving its
  title instead.
\<close>

fun id_path :: "category list \<Rightarrow> nat list \<Rightarrow> jstring option list" where
  "id_path cs [] = []"
| "id_path [] (i # p) = []"
| "id_path (c # cs) (0 # p) = or_else (c_id c) (c_title c) # id_path (kids c) p"
| "id_path (c # cs) (Suc i # p) = id_path cs (i # p)"

text \<open>
  Conditions on a list of siblings: titles pairwise different; ids, where present, pairwise
  different; and no id equal to the title of another sibling.
\<close>

definition titles_unique :: "category list \<Rightarrow> bool" where
  "titles_unique cs = distinct (map c_title cs)"

definition ids_unique :: "category list \<Rightarrow> bool" where
  "ids_unique cs = distinct (filter truthy (map c_id cs))"

definition ids_apart_from_titles :: "category list \<Rightarrow> bool" where
  "ids_apart_from_titles cs =
     (\<forall>a \<in> set cs. \<forall>b \<in> set cs. a \<noteq> b \<longrightarrow> truthy (c_id a) \<longrightarrow> c_id a \<noteq> c_title b)"

fun siblings_unique :: "category \<Rightarrow> bool" where
  "siblings_unique c = (titles_unique (kids c) \<and> ids_unique (kids c)
                        \<and> (\<forall>k \<in> set (kids c). siblings_unique k))"

declare siblings_unique.simps [simp del]

definition forest_siblings_unique :: "category list \<Rightarrow> bool" where
  "forest_siblings_unique cs =
     (titles_unique cs \<and> ids_unique cs \<and> (\<forall>c \<in> set cs. siblings_unique c))"

fun siblings_apart :: "category \<Rightarrow> bool" where
  "siblings_apart c = (ids_apart_from_titles (kids c) \<and> (\<forall>k \<in> set (kids c). siblings_apart k))"

declare siblings_apart.simps [simp del]

definition forest_siblings_apart :: "category list \<Rightarrow> bool" where
  "forest_siblings_apart cs = (ids_apart_from_titles cs \<and> (\<forall>c \<in> set cs. siblings_apart c))"

section \<open>Example data\<close>

definition site_x :: site where
  "site_x = [(str ''title'', JStr (str ''X'')), (str ''url'', JStr (str ''http://x''))]"

definition site_y :: site where
  "site_y = [(str ''title'', JStr (str ''Y'')), (str ''url'', JStr (str ''http://y''))]"

definition cat_A :: "site list \<Rightarrow> category" where
  "cat_A ss = Category (Some (str ''a'')) (Some (str ''A'')) None (Some ss) (Some [])"

definition doc_of :: "category list \<Rightarrow> doc" where
  "doc_of cs = \<lparr>profile = None, categories = Some cs\<rparr>"

definition cat_S :: "site list \<Rightarrow> category" where
  "cat_S ss = Category (Some (str ''s'')) (Some (str ''x/y'')) None (Some ss) (Some [])"

definition cat_B_A :: category where
  "cat_B_A = Category (Some (str ''B'')) (Some (str ''A'')) None (Some []) (Some [])"

definition cat_C_B :: category where
  "cat_C_B = Category (Some (str ''C'')) (Some (str ''B'')) None (Some []) (Some [])"

definition site_x2 :: site where
  "site_x2 = [(str ''title'', JStr (str ''X2'')), (str ''url'', JStr (str ''http://x''))]"

definition cat_B :: "site list \<Rightarrow> category" where
  "cat_B ss = Category (Some (str ''b'')) (Some (str ''B'')) None (Some ss) (Some [])"

text \<open>
  \<open>site_x\<close> with one more property, the time stamp that the default data puts on every
  site.
\<close>

definition site_x_stamped :: site where
  "site_x_stamped = site_x @ [(str ''faviconUpdatedAt'', JNum 0)]"

text \<open>
  Two siblings with different ids (one has none) and different titles, and the same key
  \<open>id || title\<close>: the id of the first is the title of the second.
\<close>

definition cat_P :: "site list \<Rightarrow> category" where
  "cat_P ss = Category (Some (str ''x'')) (Some (str ''P'')) None (Some ss) (Some [])"

definition cat_X :: "site list \<Rightarrow> category" where
  "cat_X ss = Category None (Some (str ''x'')) None (Some ss) (Some [])"

text \<open>A reserved category with an empty icon and without \<open>sites\<close> and \<open>children\<close>.\<close>

definition unc_bare :: category where
  "unc_bare = Category (Some UNC_ID) (Some UNC_TITLE) (Some []) None None"

section \<open>Evaluation on a given category\<close>

lemma kids_Category [simp]: "kids (Category i t ic ss ch) = cats_of ch"
  by (simp add: kids_def cats_of_def)

lemma safe_sites_Category [simp]:
  "safe_sites (Category i t ic ss ch) = (case ss of None \<Rightarrow> [] | Some l \<Rightarrow> l)"
  by (simp add: safe_sites_def)

lemma norm_structure_Category [simp]:
  "norm_structure (Category i t ic ss ch)
     = SNode (or_empty i) (or_empty t) (map norm_structure (cats_of ch))"
  by (simp add: norm_structure.simps)

lemma norm_meta_Category [simp]:
  "norm_meta (Category i t ic ss ch)
     = MNode (or_empty i) (or_empty t) (or_empty ic) (map norm_meta (cats_of ch))"
  by (simp add: norm_meta.simps)

section \<open>Facts about \<open>findIndex\<close> and \<open>ensureUncategorized\<close>\<close>

lemma findIndex_None: "findIndex P xs = None \<longleftrightarrow> (\<forall>x\<in>set xs. \<not> P x)"
  by (induction xs) auto

lemma findIndex_Some:
  "findIndex P xs = Some i \<Longrightarrow> i < length xs \<and> P (xs ! i) \<and> (\<forall>j<i. \<not> P (xs ! j))"
proof (induction xs arbitrary: i)
  case Nil
  then show ?case by simp
next
  case (Cons x xs)
  show ?case
  proof (cases "P x")
    case True
    with Cons.prems show ?thesis by simp
  next
    case False
    with Cons.prems obtain k where k: "findIndex P xs = Some k" "i = Suc k" by auto
    from Cons.IH [OF k(1)] False k(2) show ?thesis by (auto simp: less_Suc_eq_0_disj)
  qed
qed

lemma findIndex_SomeI:
  "i < length xs \<Longrightarrow> P (xs ! i) \<Longrightarrow> (\<forall>j<i. \<not> P (xs ! j)) \<Longrightarrow> findIndex P xs = Some i"
proof (induction xs arbitrary: i)
  case Nil
  then show ?case by simp
next
  case (Cons x xs)
  show ?case
  proof (cases i)
    case 0
    with Cons.prems show ?thesis by simp
  next
    case (Suc k)
    with Cons.prems have "\<not> P x" by auto
    moreover have "findIndex P xs = Some k" using Cons.prems Suc by (intro Cons.IH) auto
    ultimately show ?thesis using Suc by simp
  qed
qed

lemma is_unc_repair: "is_unc u \<Longrightarrow> is_unc (repair_unc u)"
  by (auto simp: is_unc_def repair_unc_def truthy_def UNC_ID_def UNC_TITLE_def str_def)

lemma complete_repair: "is_unc u \<Longrightarrow> unc_complete (repair_unc u)"
  using is_unc_repair [of u] by (auto simp: unc_complete_def repair_unc_def split: option.splits)

lemma complete_new: "unc_complete new_unc"
  by (simp add: unc_complete_def new_unc_def is_unc_def)

lemma ensure_last:
  "ensureUncategorized cats \<noteq> [] \<and> unc_complete (last (ensureUncategorized cats))"
proof (cases "findIndex is_unc cats")
  case None
  then have "\<forall>x\<in>set cats. \<not> is_unc x" by (simp add: findIndex_None)
  then have "findIndex is_unc (cats @ [new_unc]) = Some (length cats)"
    using complete_new by (intro findIndex_SomeI) (auto simp: nth_append unc_complete_def)
  with None show ?thesis using complete_new by (simp add: ensureUncategorized_def)
next
  case (Some i)
  note fi = findIndex_Some [OF Some]
  let ?c1 = "cats[i := repair_unc (cats ! i)]"
  have f1: "findIndex is_unc ?c1 = Some i"
    using fi is_unc_repair by (intro findIndex_SomeI) auto
  have c: "unc_complete (repair_unc (cats ! i))" using fi complete_repair by simp
  have ne: "cats \<noteq> []" using fi by auto
  show ?thesis
  proof (cases "i = length cats - 1")
    case True
    have "last ?c1 = repair_unc (cats ! i)" using ne True by (simp add: last_list_update)
    with Some f1 True c ne show ?thesis by (simp add: ensureUncategorized_def)
  next
    case False
    with Some f1 c fi show ?thesis by (simp add: ensureUncategorized_def)
  qed
qed

section \<open>Facts about the comparison\<close>

lemma erase_sites_Category [simp]:
  "erase_sites (Category i t ic ss ch) = Category i t ic None (map_option (map erase_sites) ch)"
  by (cases ch) (simp_all add: erase_sites.simps cats_of_def)

lemma keys_unique_Category [simp]:
  "keys_unique (Category i t ic ss ch) =
     (distinct (map cat_key (cats_of ch)) \<and> (\<forall>k \<in> set (cats_of ch). keys_unique k))"
  by (subst keys_unique.simps) simp

lemma walk_Nil: "walk c [] s = []"
  by (subst walk.simps) simp

lemma walk_Cons:
  "walk c (n # ns) s =
     (case byId_get c (cat_key n) of
        None \<Rightarrow> []
      | Some cc \<Rightarrow>
          (if safe_sites cc \<noteq> safe_sites n
           then [\<lparr>segments = s @ [c_title n], node_sites = safe_sites n\<rparr>]
           else [])
          @ walk (kids cc) (kids n) (s @ [c_title n]))
     @ walk c ns s"
  by (subst walk.simps, subst (3) walk.simps) simp

lemma find_SomeD: "find P xs = Some x \<Longrightarrow> P x \<and> x \<in> set xs"
  by (induction xs) (auto split: if_splits)

lemma find_is_Some: "x \<in> set xs \<Longrightarrow> P x \<Longrightarrow> \<exists>y. find P xs = Some y"
  by (induction xs) auto

text \<open>With pairwise different keys the \<open>Map\<close> lookup returns the node itself.\<close>

lemma byId_get_unique:
  assumes "distinct (map cat_key cs)" "c \<in> set cs"
  shows "byId_get cs (cat_key c) = Some c"
proof -
  obtain x where x: "find (\<lambda>x. cat_key x = cat_key c) (rev cs) = Some x"
    using find_is_Some [of c "rev cs" "\<lambda>x. cat_key x = cat_key c"] assms(2) by auto
  from find_SomeD [OF x] have "x \<in> set cs" "cat_key x = cat_key c" by simp_all
  with assms have "x = c" by (simp add: distinct_map inj_on_def)
  with x show ?thesis by (simp add: byId_get_def)
qed

lemma erase_eq_fields:
  assumes "erase_sites a = erase_sites b"
  shows "c_id a = c_id b" "c_title a = c_title b" "c_icon a = c_icon b"
    "map erase_sites (kids a) = map erase_sites (kids b)"
proof -
  have e: "Category (c_id a) (c_title a) (c_icon a) None
             (if c_children a = None then None else Some (map erase_sites (kids a)))
         = Category (c_id b) (c_title b) (c_icon b) None
             (if c_children b = None then None else Some (map erase_sites (kids b)))"
    using assms by (simp only: erase_sites.simps)
  from e show "c_id a = c_id b" "c_title a = c_title b" "c_icon a = c_icon b" by simp_all
  from e have "(if c_children a = None then None else Some (map erase_sites (kids a)))
             = (if c_children b = None then None else Some (map erase_sites (kids b)))" by simp
  then show "map erase_sites (kids a) = map erase_sites (kids b)"
    by (cases "c_children a"; cases "c_children b") (simp_all add: kids_def)
qed

lemma erase_eq_key: "erase_sites a = erase_sites b \<Longrightarrow> cat_key a = cat_key b"
  using erase_eq_fields [of a b] by (simp add: cat_key_def)

lemma list_all2_map_eq:
  assumes "map f xs = map f ys"
  shows "list_all2 (\<lambda>x y. f x = f y \<and> x \<in> set xs \<and> y \<in> set ys) xs ys"
proof -
  have len: "length xs = length ys" using assms by (rule map_eq_imp_length_eq)
  have "f (xs ! i) = f (ys ! i)" if "i < length xs" for i
    using that len nth_map [of i xs f] nth_map [of i ys f] assms by simp
  with len show ?thesis by (simp add: list_all2_conv_all_nth)
qed

text \<open>
  The loop body of \<open>walk\<close>, run over a list \<open>ns\<close> of incoming nodes that are paired by
  position with stored nodes \<open>os\<close>, records what the lockstep comparison records.
\<close>

lemma walk_body_lockstep:
  assumes pair: "list_all2 (\<lambda>cc nc. erase_sites cc = erase_sites nc \<and> cc \<in> set currC \<and> nc \<in> set nextC) os ns"
    and dist: "distinct (map cat_key currC)"
    and rec: "\<And>cc nc. cc \<in> set currC \<Longrightarrow> nc \<in> set nextC \<Longrightarrow> erase_sites cc = erase_sites nc \<Longrightarrow>
                walk (kids cc) (kids nc) (segs @ [c_title nc])
                  = lockstep (kids cc) (kids nc) (segs @ [c_title nc])"
  shows "concat (map (\<lambda>nc.
        case byId_get currC (cat_key nc) of
          None \<Rightarrow> []
        | Some cc \<Rightarrow>
            (if safe_sites cc \<noteq> safe_sites nc
             then [\<lparr>segments = segs @ [c_title nc], node_sites = safe_sites nc\<rparr>]
             else [])
            @ walk (kids cc) (kids nc) (segs @ [c_title nc])) ns) = lockstep os ns segs"
  using pair
proof (induction os ns rule: list_all2_induct)
  case Nil
  then show ?case by simp
next
  case (Cons cc os nc ns)
  have "byId_get currC (cat_key nc) = Some cc"
    using byId_get_unique [OF dist, of cc] Cons.hyps(1) erase_eq_key [of cc nc] by simp
  then show ?case using Cons rec [of cc nc] by simp
qed

text \<open>
  On two trees that are equal up to their site lists, with pairwise different sibling keys,
  \<open>walk\<close> computes the lockstep comparison.
\<close>

lemma walk_lockstep:
  "map erase_sites old = map erase_sites new \<Longrightarrow> forest_keys_unique old \<Longrightarrow>
   walk old new segs = lockstep old new segs"
proof (induction old new segs rule: walk.induct)
  case (1 currCats nextCats segs)
  have dist: "distinct (map cat_key currCats)"
    using "1.prems"(2) by (simp add: forest_keys_unique_def)
  have pair: "list_all2 (\<lambda>cc nc. erase_sites cc = erase_sites nc \<and> cc \<in> set currCats \<and> nc \<in> set nextCats)
                currCats nextCats"
    using list_all2_map_eq [OF "1.prems"(1)] .
  have rec: "walk (kids cc) (kids nc) (segs @ [c_title nc])
               = lockstep (kids cc) (kids nc) (segs @ [c_title nc])"
    if "cc \<in> set currCats" "nc \<in> set nextCats" "erase_sites cc = erase_sites nc" for cc nc
  proof -
    have g: "byId_get currCats (cat_key nc) = Some cc"
      using byId_get_unique [OF dist that(1)] erase_eq_key [OF that(3)] by simp
    have "keys_unique cc" using "1.prems"(2) that(1) by (simp add: forest_keys_unique_def)
    then have ku: "forest_keys_unique (kids cc)"
      by (subst (asm) keys_unique.simps) (simp add: forest_keys_unique_def)
    show ?thesis
      using "1.IH" [OF that(2) g erase_eq_fields(4) [OF that(3)] ku] .
  qed
  show ?case
    by (subst walk.simps) (rule walk_body_lockstep [OF pair dist rec])
qed

lemma sites_agree_kids:
  "q \<noteq> [] \<Longrightarrow> sites_agree (cc # os) (nc # ns) (0 # q) = sites_agree (kids cc) (kids nc) q"
  by (simp add: sites_agree_def)

lemma sites_agree_tail:
  "sites_agree (cc # os) (nc # ns) (Suc i # q) = sites_agree os ns (i # q)"
  by (simp add: sites_agree_def)

lemma sites_agree_head:
  "sites_agree (cc # os) (nc # ns) [0] = (safe_sites cc = safe_sites nc)"
  by (simp add: sites_agree_def)

lemma sites_agree_Nil: "sites_agree os ns []"
  by (simp add: sites_agree_def)

lemma sites_agree_Nil_left: "sites_agree [] ns q"
  by (cases q) (simp_all add: sites_agree_def)

lemma sites_agree_refl: "sites_agree cs cs q"
  by (simp add: sites_agree_def split: option.splits)

text \<open>No position with different site lists: the lockstep comparison records nothing.\<close>

lemma lockstep_agree:
  "(\<And>q. sites_agree os ns q) \<Longrightarrow> lockstep os ns segs = []"
proof (induction os ns segs rule: lockstep.induct)
  case (3 cc os nc ns segs)
  have h: "safe_sites cc = safe_sites nc"
    using "3.prems" [of "[0]"] by (simp add: sites_agree_head)
  have k: "sites_agree (kids cc) (kids nc) q" for q
  proof (cases "q = []")
    case True
    then show ?thesis by (simp add: sites_agree_Nil)
  next
    case False
    then show ?thesis using "3.prems" [of "0 # q"] by (simp add: sites_agree_kids)
  qed
  have t: "sites_agree os ns q" for q
  proof (cases q)
    case Nil
    then show ?thesis by (simp add: sites_agree_Nil)
  next
    case (Cons i q')
    then show ?thesis using "3.prems" [of "Suc i # q'"] by (simp add: sites_agree_tail)
  qed
  show ?case using h "3.IH"(1) [OF k] "3.IH"(2) [OF t] by simp
qed simp_all

text \<open>
  Exactly one position \<open>p\<close> with different site lists: the lockstep comparison records one
  entry, the title path of \<open>p\<close> with the incoming site list.
\<close>

lemma lockstep_single:
  "node_at os p = Some a \<Longrightarrow> node_at ns p = Some b \<Longrightarrow> safe_sites a \<noteq> safe_sites b \<Longrightarrow>
   (\<And>q. q \<noteq> p \<Longrightarrow> sites_agree os ns q) \<Longrightarrow>
   lockstep os ns segs = [\<lparr>segments = segs @ title_path ns p, node_sites = safe_sites b\<rparr>]"
proof (induction os ns segs arbitrary: p rule: lockstep.induct)
  case (1 ns segs)
  from "1.prems"(1) show ?case by (cases p) simp_all
next
  case (2 cc os segs)
  from "2.prems"(2) show ?case by (cases p) simp_all
next
  case (3 cc os nc ns segs)
  from "3.prems"(1) obtain i r where p: "p = i # r" by (cases p) simp_all
  have agree_kids: "sites_agree (kids cc) (kids nc) q" if "0 # q \<noteq> p" for q
  proof (cases "q = []")
    case True
    then show ?thesis by (simp add: sites_agree_Nil)
  next
    case False
    then show ?thesis using "3.prems"(4) [OF that] by (simp add: sites_agree_kids)
  qed
  have agree_tail: "sites_agree os ns (j # q)" if "Suc j # q \<noteq> p" for j q
    using "3.prems"(4) [OF that] by (simp add: sites_agree_tail)
  show ?case
  proof (cases i)
    case 0
    have "sites_agree os ns q" for q
      using agree_tail p 0 sites_agree_Nil by (cases q) simp_all
    then have tl: "lockstep os ns segs = []" by (rule lockstep_agree)
    show ?thesis
    proof (cases "r = []")
      case True
      have ab: "a = cc" "b = nc" using "3.prems"(1,2) p 0 True by simp_all
      have "sites_agree (kids cc) (kids nc) q" for q
        using agree_kids [of q] p 0 True sites_agree_Nil by (cases "q = []") simp_all
      then have "lockstep (kids cc) (kids nc) (segs @ [c_title nc]) = []" by (rule lockstep_agree)
      then show ?thesis using tl "3.prems"(3) ab p 0 True by simp
    next
      case False
      have h: "safe_sites cc = safe_sites nc"
        using "3.prems"(4) [of "[0]"] p 0 False by (simp add: sites_agree_head)
      have na: "node_at (kids cc) r = Some a" "node_at (kids nc) r = Some b"
        using "3.prems"(1,2) p 0 False by simp_all
      have k: "sites_agree (kids cc) (kids nc) q" if "q \<noteq> r" for q
        using agree_kids [of q] that p 0 by simp
      show ?thesis
        using "3.IH"(1) [OF na "3.prems"(3) k] tl h p 0 by simp
    qed
  next
    case (Suc j)
    have h: "safe_sites cc = safe_sites nc"
      using "3.prems"(4) [of "[0]"] p Suc by (simp add: sites_agree_head)
    have "sites_agree (kids cc) (kids nc) q" for q
      using agree_kids [of q] p Suc by simp
    then have kd: "lockstep (kids cc) (kids nc) (segs @ [c_title nc]) = []" by (rule lockstep_agree)
    have na: "node_at os (j # r) = Some a" "node_at ns (j # r) = Some b"
      using "3.prems"(1,2) p Suc by simp_all
    have t: "sites_agree os ns q" if "q \<noteq> j # r" for q
      using agree_tail that p Suc sites_agree_Nil by (cases q) simp_all
    show ?thesis
      using "3.IH"(2) [OF na "3.prems"(3) t] kd h p Suc by simp
  qed
qed

text \<open>Equal normal forms leave no position at which the trees differ structurally.\<close>

lemma same_structure_no_diff:
  "map norm_structure old = map norm_structure new \<Longrightarrow> \<not> differs_at old new p"
proof (induction old p arbitrary: new rule: node_at.induct)
  case (1 cs)
  then show ?case by (simp add: differs_at_def)
next
  case (2 i p)
  then show ?case by (simp add: differs_at_def)
next
  case (3 c cs p)
  from "3.prems" obtain d ds where new: "new = d # ds" and cd: "norm_structure c = norm_structure d"
    by (cases new) auto
  from cd have f: "or_empty (c_id c) = or_empty (c_id d)" "or_empty (c_title c) = or_empty (c_title d)"
    "map norm_structure (kids c) = map norm_structure (kids d)"
    by (simp_all add: norm_structure.simps)
  show ?case
  proof (cases "p = []")
    case True
    with f new show ?thesis by (simp add: differs_at_def)
  next
    case False
    with "3.IH" [OF False f(3)] new show ?thesis by (simp add: differs_at_def)
  qed
next
  case (4 c cs i p)
  from "4.prems" obtain d ds where new: "new = d # ds"
    and t: "map norm_structure cs = map norm_structure ds"
    by (cases new) auto
  from "4.IH" [OF t] new show ?case by (simp add: differs_at_def)
qed

lemma kids_erase: "kids (erase_sites c) = map erase_sites (kids c)"
  by (simp add: erase_sites.simps kids_def split: option.splits)

lemma norm_structure_erase: "norm_structure (erase_sites c) = norm_structure c"
proof (induction c rule: norm_structure.induct)
  case (1 c)
  have "map norm_structure (map erase_sites (kids c)) = map norm_structure (kids c)"
    using 1 by simp
  then show ?case
    by (simp add: norm_structure.simps [of "erase_sites c"] norm_structure.simps [of c] kids_erase)
       (simp add: erase_sites.simps)
qed

lemma norm_meta_erase: "norm_meta (erase_sites c) = norm_meta c"
proof (induction c rule: norm_meta.induct)
  case (1 c)
  have "map norm_meta (map erase_sites (kids c)) = map norm_meta (kids c)"
    using 1 by simp
  then show ?case
    by (simp add: norm_meta.simps [of "erase_sites c"] norm_meta.simps [of c] kids_erase)
       (simp add: erase_sites.simps)
qed

lemma erase_eq_same:
  assumes "map erase_sites old = map erase_sites new"
  shows "map norm_structure old = map norm_structure new" "map norm_meta old = map norm_meta new"
proof -
  have s: "map norm_structure xs = map (norm_structure \<circ> erase_sites) xs" for xs
    by (simp add: norm_structure_erase)
  have m: "map norm_meta xs = map (norm_meta \<circ> erase_sites) xs" for xs
    by (simp add: norm_meta_erase)
  have "map (norm_structure \<circ> erase_sites) old = map (norm_structure \<circ> erase_sites) new"
    using arg_cong [OF assms, of "map norm_structure"] by simp
  then show "map norm_structure old = map norm_structure new" by (simp only: s)
  have "map (norm_meta \<circ> erase_sites) old = map (norm_meta \<circ> erase_sites) new"
    using arg_cong [OF assms, of "map norm_meta"] by simp
  then show "map norm_meta old = map norm_meta new" by (simp only: m)
qed

text \<open>\<open>ensureUncategorized\<close> on a root list without, and with, a trailing reserved category.\<close>

lemma ensure_append_new:
  assumes "\<forall>x\<in>set cats. \<not> is_unc x"
  shows "ensureUncategorized cats = cats @ [new_unc]"
proof -
  have n: "findIndex is_unc cats = None" using assms by (simp add: findIndex_None)
  have "findIndex is_unc (cats @ [new_unc]) = Some (length cats)"
    using assms complete_new by (intro findIndex_SomeI) (auto simp: nth_append unc_complete_def)
  with n show ?thesis by (simp add: ensureUncategorized_def)
qed

lemma repair_new_unc: "repair_unc new_unc = new_unc"
  by (simp add: repair_unc_def new_unc_def truthy_def UNC_ID_def UNC_TITLE_def str_def)

lemma ensure_fixpoint:
  assumes "\<forall>x\<in>set cats. \<not> is_unc x"
  shows "ensureUncategorized (cats @ [new_unc]) = cats @ [new_unc]"
proof -
  have f: "findIndex is_unc (cats @ [new_unc]) = Some (length cats)"
    using assms complete_new by (intro findIndex_SomeI) (auto simp: nth_append unc_complete_def)
  then show ?thesis by (simp add: ensureUncategorized_def repair_new_unc)
qed

lemma not_unc_cat_A: "\<not> is_unc (cat_A ss)"
  by (simp add: is_unc_def cat_A_def UNC_ID_def UNC_TITLE_def str_def)

lemma cat_key_cat_A: "cat_key (cat_A ss) = Some (str ''a'')"
  by (simp add: cat_key_def cat_A_def or_else_def truthy_def str_def)

lemma cat_key_new_unc: "cat_key new_unc = Some UNC_ID"
  by (simp add: cat_key_def new_unc_def or_else_def truthy_def UNC_ID_def str_def)

lemma key_a_not_unc: "str ''a'' \<noteq> UNC_ID"
  by (simp add: UNC_ID_def str_def)

lemma getNavigationData_doc_of: "getNavigationData (Some (doc_of cs)) = Some (doc_of cs)"
  by (simp add: getNavigationData_def doc_of_def)

lemma categories_doc_of: "categories (doc_of cs) = Some cs"
  by (simp add: doc_of_def)

text \<open>The save operation on the two siblings \<open>P\<close> and \<open>x\<close> that share a key.\<close>

lemma ensure_P_X: "ensureUncategorized [cat_P ps, cat_X xs, new_unc] = [cat_P ps, cat_X xs, new_unc]"
proof -
  have "\<not> is_unc (cat_P ps)" "\<not> is_unc (cat_X xs)"
    by (simp_all add: is_unc_def cat_P_def cat_X_def UNC_ID_def UNC_TITLE_def str_def)
  then show ?thesis
    using ensure_fixpoint [of "[cat_P ps, cat_X xs]"] by simp
qed

lemma erase_P_X:
  "map erase_sites [cat_P ps, cat_X xs, new_unc] = map erase_sites [cat_P ps', cat_X xs', new_unc]"
  by (simp add: cat_P_def cat_X_def)

lemma walk_P_X:
  "walk [cat_P ps, cat_X xs, new_unc] [cat_P ps', cat_X xs', new_unc] []
     = (if xs \<noteq> ps' then [\<lparr>segments = [Some (str ''P'')], node_sites = ps'\<rparr>] else [])
       @ (if xs \<noteq> xs' then [\<lparr>segments = [Some (str ''x'')], node_sites = xs'\<rparr>] else [])"
  by (simp add: walk_Nil walk_Cons byId_get_def cat_key_def or_else_def truthy_def new_unc_def
      cat_P_def cat_X_def cats_of_def UNC_ID_def UNC_TITLE_def str_def)

lemma save_P_X:
  "handleSaveAdminData (Some (doc_of [cat_P ps, cat_X xs, new_unc]))
     (Some (doc_of [cat_P ps', cat_X xs', new_unc]))
   = (let updates = walk [cat_P ps, cat_X xs, new_unc] [cat_P ps', cat_X xs', new_unc] []
      in if updates = [] then NoopSkip else BulkWrite updates)"
proof -
  have same: "isSameStructure (Some [cat_P ps, cat_X xs, new_unc]) (Some [cat_P ps', cat_X xs', new_unc])"
    "isSameMeta (Some [cat_P ps, cat_X xs, new_unc]) (Some [cat_P ps', cat_X xs', new_unc])"
    using erase_eq_same [OF erase_P_X [of ps xs ps' xs']]
    by (simp_all add: isSameStructure_def isSameMeta_def cats_of_def)
  show ?thesis
    using same
    by (simp add: handleSaveAdminData_def getNavigationData_def doc_of_def ensure_P_X cats_of_def
        Let_def)
qed

section \<open>Facts about the storage layer\<close>

lemma updateNode_False_unchanged:
  "\<not> fst (updateNode dedup cats segs idx) \<Longrightarrow> snd (updateNode dedup cats segs idx) = cats"
  by (subst updateNode.simps, subst (asm) updateNode.simps)
     (auto simp: Let_def split: if_splits option.splits)

text \<open>\<open>updateNode\<close> reports a hit exactly when \<open>findNode\<close> resolves the path.\<close>

lemma find_findIndex: "find P xs = map_option (\<lambda>i. xs ! i) (findIndex P xs)"
  by (induction xs) (auto simp: option.map_comp comp_def)

lemma updateNode_resolves:
  "fst (updateNode dedup cats segs idx) = (findNode cats segs idx \<noteq> None)"
proof (induction dedup cats segs idx rule: updateNode.induct)
  case (1 dedup cats segs idx)
  show ?case
  proof (cases "idx \<ge> length segs")
    case True
    then show ?thesis by (subst updateNode.simps, subst findNode.simps) simp
  next
    case False
    show ?thesis
    proof (cases "findIndex (\<lambda>c. c_title c = Some (segs ! idx)) cats")
      case None
      with False show ?thesis
        by (subst updateNode.simps, subst findNode.simps) (simp add: find_findIndex)
    next
      case (Some h)
      show ?thesis
      proof (cases "idx = length segs - 1")
        case True
        with False Some show ?thesis
          by (subst updateNode.simps, subst findNode.simps) (simp add: find_findIndex Let_def)
      next
        case last: False
        from "1.IH" [OF False Some last]
        have "fst (updateNode dedup (kids (cats ! h)) segs (idx + 1))
                = (findNode (kids (cats ! h)) segs (idx + 1) \<noteq> None)" by simp
        with False Some last show ?thesis
          by (subst updateNode.simps, subst findNode.simps) (simp add: find_findIndex Let_def)
      qed
    qed
  qed
qed

lemma map_set_keys: "fst ` set (map_set k v m) = insert k (fst ` set m)"
proof (induction m)
  case Nil
  then show ?case by simp
next
  case (Cons e m)
  obtain k' v' where e: "e = (k', v')" by (cases e)
  show ?case
  proof (cases "k' = k")
    case True
    with e show ?thesis by auto
  next
    case False
    with e Cons show ?thesis by auto
  qed
qed

lemma dedup_of_keys:
  "fst ` set (dedup_of us m) \<subseteq> fst ` set m \<union> (\<lambda>u. pathKey (segments u)) ` set us"
proof (induction us arbitrary: m)
  case Nil
  then show ?case by simp
next
  case (Cons u us)
  show ?case
    using Cons.IH [of m] Cons.IH [of "map_set (pathKey (segments u)) u m"]
    by (auto simp: Let_def map_set_keys)
qed

lemma apply_entries_unresolved:
  "(\<And>k. k \<in> fst ` set es \<Longrightarrow> findNode cats (key_segments k) 0 = None) \<Longrightarrow>
   apply_entries dedup es cats = cats"
proof (induction es)
  case Nil
  then show ?case by simp
next
  case (Cons e es)
  obtain k u where e: "e = (k, u)" by (cases e)
  have "findNode cats (key_segments k) 0 = None" using Cons.prems [of k] e by simp
  then have "snd (updateNode dedup cats (key_segments k) 0) = cats"
    by (intro updateNode_False_unchanged) (simp add: updateNode_resolves)
  moreover have "apply_entries dedup es cats = cats" using Cons by simp
  ultimately show ?case using e by (simp add: Let_def)
qed


lemma not_unc_cat_S: "\<not> is_unc (cat_S ss)"
  by (simp add: is_unc_def cat_S_def UNC_ID_def UNC_TITLE_def str_def)

lemma pathKey_xy: "pathKey [Some (str ''x/y'')] = str ''x/y''"
  by (simp add: pathKey_def or_empty_def trim_def is_ws_def str_def)

lemma key_segments_xy: "key_segments (str ''x/y'') = [str ''x'', str ''y'']"
  by (simp add: key_segments_def str_def)

lemma pathKey_B: "pathKey [Some (str ''B'')] = str ''B''"
  by (simp add: pathKey_def or_empty_def trim_def is_ws_def str_def)

lemma key_segments_B: "key_segments (str ''B'') = [str ''B'']"
  by (simp add: key_segments_def str_def)

lemma putFolderNodesBulk_doc_of:
  "updates \<noteq> [] \<Longrightarrow>
   putFolderNodesBulk (Some (doc_of cs)) updates
     = Some (doc_of (apply_entries (dedup_of updates []) (dedup_of updates []) cs))"
  by (simp add: putFolderNodesBulk_def getNavigationData_doc_of Let_def)
     (simp add: doc_of_def cats_of_def)

lemma findNode_x_cat_S: "findNode [cat_S ss, new_unc] [str ''x'', str ''y''] 0 = None"
  by (subst findNode.simps) (simp add: cat_S_def new_unc_def UNC_TITLE_def str_def)

text \<open>
  \<open>updateNode\<close> assigns site lists only: the tree keeps its structure and metadata.
\<close>

lemma erase_set_sites: "erase_sites (set_sites c ss) = erase_sites c"
  by (simp add: erase_sites.simps set_sites_def kids_def)

lemma erase_set_children:
  assumes "c_children c \<noteq> None" "map erase_sites cs = map erase_sites (kids c)"
  shows "erase_sites (set_children c cs) = erase_sites c"
  using assms by (simp add: erase_sites.simps set_children_def kids_def)

lemma updateNode_Nil: "\<not> fst (updateNode dedup [] segs idx)"
  by (subst updateNode.simps) simp

lemma map_erase_update:
  assumes "h < length cats" "erase_sites x = erase_sites (cats ! h)"
  shows "map erase_sites (cats[h := x]) = map erase_sites cats"
  using assms by (simp add: map_update list_update_same_conv)

lemma updateNode_erase:
  "map erase_sites (snd (updateNode dedup cats segs idx)) = map erase_sites cats"
proof (induction dedup cats segs idx rule: updateNode.induct)
  case (1 dedup cats segs idx)
  show ?case
  proof (cases "idx \<ge> length segs")
    case True
    then show ?thesis by (subst updateNode.simps) simp
  next
    case False
    show ?thesis
    proof (cases "findIndex (\<lambda>c. c_title c = Some (segs ! idx)) cats")
      case None
      with False show ?thesis by (subst updateNode.simps) simp
    next
      case (Some h)
      then have h: "h < length cats" using findIndex_Some by blast
      show ?thesis
      proof (cases "idx = length segs - 1")
        case True
        with False Some show ?thesis
          by (subst updateNode.simps) (simp add: Let_def map_erase_update [OF h] erase_set_sites)
      next
        case last: False
        let ?r = "updateNode dedup (kids (cats ! h)) segs (idx + 1)"
        have ih: "map erase_sites (snd ?r) = map erase_sites (kids (cats ! h))"
          using "1.IH" [OF False Some last] by simp
        show ?thesis
        proof (cases "fst ?r")
          case True
          have "kids (cats ! h) \<noteq> []" using True updateNode_Nil by metis
          then have "c_children (cats ! h) \<noteq> None" by (cases "c_children (cats ! h)") (simp_all add: kids_def)
          then have "erase_sites (set_children (cats ! h) (snd ?r)) = erase_sites (cats ! h)"
            using ih by (rule erase_set_children)
          with False Some last True show ?thesis
            by (subst updateNode.simps) (simp add: Let_def map_erase_update [OF h])
        next
          case f: False
          with False Some last show ?thesis by (subst updateNode.simps) (simp add: Let_def)
        qed
      qed
    qed
  qed
qed

lemma apply_entries_erase:
  "map erase_sites (apply_entries dedup es cats) = map erase_sites cats"
proof (induction es arbitrary: cats)
  case Nil
  then show ?case by simp
next
  case (Cons e es)
  obtain k u where e: "e = (k, u)" by (cases e)
  show ?case using Cons [of cats] Cons [of "snd (updateNode dedup cats (key_segments k) 0)"] e
    by (simp add: Let_def updateNode_erase)
qed

text \<open>Two updates, of which the first does not resolve and the second does.\<close>

lemma apply_two_entries:
  assumes "k1 \<noteq> k2"
    and "key_segments k1 \<noteq> []"
    and "findNode cats (key_segments k1) 0 = None"
    and "key_segments k2 \<noteq> []"
    and "updateNode [(k1, u1), (k2, u2)] cats (key_segments k2) 0 = (True, cats')"
  shows "apply_entries [(k1, u1), (k2, u2)] [(k1, u1), (k2, u2)] cats = cats'"
proof -
  have "snd (updateNode [(k1, u1), (k2, u2)] cats (key_segments k1) 0) = cats"
    by (rule updateNode_False_unchanged) (simp add: updateNode_resolves assms(3))
  then show ?thesis using assms(2,4,5) by (simp add: Let_def)
qed

section \<open>Facts about path resolution\<close>

lemma title_path_nth:
  "i < length cs \<Longrightarrow> title_path cs (i # p) = c_title (cs ! i) # title_path (kids (cs ! i)) p"
proof (induction cs arbitrary: i)
  case Nil
  then show ?case by simp
next
  case (Cons c cs)
  then show ?case by (cases i) simp_all
qed

lemma id_path_nth:
  "i < length cs \<Longrightarrow>
   id_path cs (i # p) = or_else (c_id (cs ! i)) (c_title (cs ! i)) # id_path (kids (cs ! i)) p"
proof (induction cs arbitrary: i)
  case Nil
  then show ?case by simp
next
  case (Cons c cs)
  then show ?case by (cases i) simp_all
qed

lemma titles_unique_nth:
  assumes "titles_unique cs" "i < length cs" "j < length cs" "j \<noteq> i"
  shows "c_title (cs ! j) \<noteq> c_title (cs ! i)"
proof
  assume "c_title (cs ! j) = c_title (cs ! i)"
  then have e: "map c_title cs ! j = map c_title cs ! i" using assms(2,3) by (simp only: nth_map)
  have d: "distinct (map c_title cs)" using assms(1) by (simp only: titles_unique_def)
  have l: "j < length (map c_title cs)" "i < length (map c_title cs)" using assms(2,3) by simp_all
  show False using nth_eq_iff_index_eq [OF d l] e assms(4) by blast
qed

lemma distinct_filter_nth:
  "distinct (filter P xs) \<Longrightarrow> i < length xs \<Longrightarrow> j < length xs \<Longrightarrow> P (xs ! i) \<Longrightarrow>
   i \<noteq> j \<Longrightarrow> xs ! i \<noteq> xs ! j"
proof (induction xs arbitrary: i j)
  case Nil
  then show ?case by simp
next
  case (Cons x xs)
  have dx: "P x \<Longrightarrow> x \<notin> set xs" using Cons.prems(1) by (simp split: if_splits)
  have d: "distinct (filter P xs)" using Cons.prems(1) by (simp split: if_splits)
  show ?case
  proof (cases i)
    case 0
    then obtain j' where j: "j = Suc j'" using Cons.prems(5) by (cases j) simp_all
    have "P x" using Cons.prems(4) 0 by simp
    moreover have "xs ! j' \<in> set xs" using Cons.prems(3) j by simp
    ultimately have "x \<noteq> xs ! j'" using dx by blast
    then show ?thesis using 0 j by simp
  next
    case (Suc i')
    show ?thesis
    proof (cases j)
      case 0
      have px: "P (xs ! i')" using Cons.prems(4) Suc by simp
      have "xs ! i' \<in> set xs" using Cons.prems(2) Suc by simp
      then have "xs ! i' \<noteq> x" using dx px by metis
      then show ?thesis using Suc 0 by simp
    next
      case j: (Suc j')
      have "xs ! i' \<noteq> xs ! j'"
        using Cons.IH [OF d, of i' j'] Cons.prems(2,3,4,5) Suc j by simp
      then show ?thesis using Suc j by simp
    qed
  qed
qed

lemma ids_unique_nth:
  assumes "ids_unique cs" "i < length cs" "j < length cs" "truthy (c_id (cs ! i))" "j \<noteq> i"
  shows "c_id (cs ! j) \<noteq> c_id (cs ! i)"
proof -
  have d: "distinct (filter truthy (map c_id cs))" using assms(1) by (simp only: ids_unique_def)
  have "map c_id cs ! i \<noteq> map c_id cs ! j"
    using distinct_filter_nth [OF d, of i j] assms(2,3,4,5) by simp
  then show ?thesis using assms(2,3) by simp
qed

lemma ids_apart_nth:
  assumes "ids_apart_from_titles cs" "i < length cs" "j < length cs" "j \<noteq> i"
    "titles_unique cs" "truthy (c_id (cs ! i))"
  shows "c_id (cs ! i) \<noteq> c_title (cs ! j)"
proof -
  have "cs ! i \<noteq> cs ! j" using titles_unique_nth [OF assms(5,2,3,4)] by metis
  moreover have "cs ! i \<in> set cs" "cs ! j \<in> set cs" using assms(2,3) by simp_all
  ultimately show ?thesis using assms(1,6) unfolding ids_apart_from_titles_def by blast
qed

text \<open>Among unambiguous siblings each of the three lookups finds the node it was given.\<close>

lemma findIndex_title:
  assumes "titles_unique cs" "i < length cs"
  shows "findIndex (\<lambda>ch. c_title ch = c_title (cs ! i)) cs = Some i"
proof (intro findIndex_SomeI)
  show "i < length cs" by fact
  show "c_title (cs ! i) = c_title (cs ! i)" by simp
  show "\<forall>j<i. c_title (cs ! j) \<noteq> c_title (cs ! i)"
  proof (intro allI impI)
    fix j assume "j < i"
    then have "j < length cs" "j \<noteq> i" using assms(2) by auto
    then show "c_title (cs ! j) \<noteq> c_title (cs ! i)"
      by (rule titles_unique_nth [OF assms(1,2)])
  qed
qed

lemma findIndex_root:
  assumes "titles_unique cs" "ids_unique cs" "ids_apart_from_titles cs" "i < length cs"
  shows "findIndex (\<lambda>c. c_title c = c_title (cs ! i)
                        \<or> or_else (c_id c) (c_title c) = c_title (cs ! i)) cs = Some i"
proof (intro findIndex_SomeI)
  show "i < length cs" by fact
  show "c_title (cs ! i) = c_title (cs ! i)
        \<or> or_else (c_id (cs ! i)) (c_title (cs ! i)) = c_title (cs ! i)" by simp
  show "\<forall>j<i. \<not> (c_title (cs ! j) = c_title (cs ! i)
                \<or> or_else (c_id (cs ! j)) (c_title (cs ! j)) = c_title (cs ! i))"
  proof (intro allI impI)
    fix j assume j: "j < i"
    then have jl: "j < length cs" "j \<noteq> i" "i \<noteq> j" using assms(4) by auto
    have t: "c_title (cs ! j) \<noteq> c_title (cs ! i)"
      by (rule titles_unique_nth [OF assms(1,4) jl(1,2)])
    have "or_else (c_id (cs ! j)) (c_title (cs ! j)) \<noteq> c_title (cs ! i)"
    proof (cases "truthy (c_id (cs ! j))")
      case True
      have "c_id (cs ! j) \<noteq> c_title (cs ! i)"
        by (rule ids_apart_nth [OF assms(3) jl(1) assms(4) jl(3) assms(1) True])
      then show ?thesis using True by (simp add: or_else_def)
    next
      case False
      then show ?thesis using t by (simp add: or_else_def)
    qed
    with t show "\<not> (c_title (cs ! j) = c_title (cs ! i)
                \<or> or_else (c_id (cs ! j)) (c_title (cs ! j)) = c_title (cs ! i))" by simp
  qed
qed

lemma pickChild_key:
  assumes "titles_unique cs" "ids_unique cs" "ids_apart_from_titles cs" "i < length cs"
  shows "pickChild cs (or_else (c_id (cs ! i)) (c_title (cs ! i))) = Some (cs ! i)"
proof -
  let ?k = "or_else (c_id (cs ! i)) (c_title (cs ! i))"
  let ?P = "\<lambda>c. (truthy (c_id c) \<and> c_id c = ?k) \<or> c_title c = ?k"
  have "findIndex ?P cs = Some i"
  proof (intro findIndex_SomeI)
    show "i < length cs" by fact
    show "?P (cs ! i)" by (simp add: or_else_def)
    show "\<forall>j<i. \<not> ?P (cs ! j)"
    proof (intro allI impI)
      fix j assume "j < i"
      then have jl: "j < length cs" "j \<noteq> i" "i \<noteq> j" using assms(4) by auto
      have t: "c_title (cs ! j) \<noteq> c_title (cs ! i)"
        by (rule titles_unique_nth [OF assms(1,4) jl(1,2)])
      show "\<not> ?P (cs ! j)"
      proof (cases "truthy (c_id (cs ! i))")
        case True
        have "c_id (cs ! j) \<noteq> c_id (cs ! i)"
          by (rule ids_unique_nth [OF assms(2,4) jl(1) True jl(2)])
        moreover have "c_id (cs ! i) \<noteq> c_title (cs ! j)"
          by (rule ids_apart_nth [OF assms(3,4) jl(1,2) assms(1) True])
        ultimately show ?thesis using True by (auto simp: or_else_def)
      next
        case False
        have "truthy (c_id (cs ! j)) \<Longrightarrow> c_id (cs ! j) \<noteq> c_title (cs ! i)"
          by (rule ids_apart_nth [OF assms(3) jl(1) assms(4) jl(3) assms(1)])
        with False t show ?thesis by (auto simp: or_else_def)
      qed
    qed
  qed
  then show ?thesis by (simp add: pickChild_def find_findIndex)
qed

lemma siblings_uniqueD:
  "siblings_unique c \<Longrightarrow> titles_unique (kids c) \<and> ids_unique (kids c)
     \<and> (\<forall>k \<in> set (kids c). siblings_unique k)"
  by (subst (asm) siblings_unique.simps) simp

lemma siblings_apartD:
  "siblings_apart c \<Longrightarrow> ids_apart_from_titles (kids c) \<and> (\<forall>k \<in> set (kids c). siblings_apart k)"
  by (subst (asm) siblings_apart.simps) simp

lemma kids_children: "kids c \<noteq> [] \<Longrightarrow> c_children c = Some (kids c)"
  by (cases "c_children c") (simp_all add: kids_def)

lemma titlePath_loop_index:
  "siblings_unique node \<Longrightarrow> rest = [] \<or> findByIndex_loop par (kids node) rest \<noteq> None \<Longrightarrow>
   titlePath_loop node (title_path (kids node) (map nat rest)) = Some rest"
proof (induction rest arbitrary: node par)
  case Nil
  then show ?case by simp
next
  case (Cons idx rest)
  let ?ch = "kids node"
  from Cons.prems(2) have r: "findByIndex_loop par ?ch (idx # rest) \<noteq> None" by simp
  then have b: "0 \<le> idx" "nat idx < length ?ch" by (auto split: if_splits)
  then have ch: "c_children node = Some ?ch" by (intro kids_children) auto
  let ?n = "?ch ! nat idx"
  have u: "titles_unique ?ch" "siblings_unique ?n"
    using siblings_uniqueD [OF Cons.prems(1)] b(2) by auto
  have nx: "rest = [] \<or> findByIndex_loop (Some ?n) (kids ?n) rest \<noteq> None"
    using r b by (auto simp: Let_def split: if_splits)
  have tp: "title_path ?ch (map nat (idx # rest)) = c_title ?n # title_path (kids ?n) (map nat rest)"
    using title_path_nth [OF b(2)] by simp
  have fi: "findIndex (\<lambda>c. c_title c = c_title ?n) ?ch = Some (nat idx)"
    by (rule findIndex_title [OF u(1) b(2)])
  have ih: "titlePath_loop ?n (title_path (kids ?n) (map nat rest)) = Some rest"
    by (rule Cons.IH [OF u(2) nx])
  show ?case
    unfolding tp using ch fi ih b(1) by simp
qed

lemma resolveTitlePath_loop_index:
  "siblings_unique node \<Longrightarrow> siblings_apart node \<Longrightarrow>
   rest = [] \<or> findByIndex_loop par (kids node) rest \<noteq> None \<Longrightarrow>
   resolveTitlePath_loop node (id_path (kids node) (map nat rest))
     = Some (title_path (kids node) (map nat rest))"
proof (induction rest arbitrary: node par)
  case Nil
  then show ?case by simp
next
  case (Cons idx rest)
  let ?ch = "kids node"
  from Cons.prems(3) have r: "findByIndex_loop par ?ch (idx # rest) \<noteq> None" by simp
  then have b: "0 \<le> idx" "nat idx < length ?ch" by (auto split: if_splits)
  then have ch: "c_children node = Some ?ch" by (intro kids_children) auto
  let ?n = "?ch ! nat idx"
  have u: "titles_unique ?ch" "ids_unique ?ch" "siblings_unique ?n"
    using siblings_uniqueD [OF Cons.prems(1)] b(2) by auto
  have a: "ids_apart_from_titles ?ch" "siblings_apart ?n"
    using siblings_apartD [OF Cons.prems(2)] b(2) by auto
  have nx: "rest = [] \<or> findByIndex_loop (Some ?n) (kids ?n) rest \<noteq> None"
    using r b by (auto simp: Let_def split: if_splits)
  have tp: "title_path ?ch (map nat (idx # rest)) = c_title ?n # title_path (kids ?n) (map nat rest)"
    using title_path_nth [OF b(2)] by simp
  have ip: "id_path ?ch (map nat (idx # rest))
              = or_else (c_id ?n) (c_title ?n) # id_path (kids ?n) (map nat rest)"
    using id_path_nth [OF b(2)] by simp
  have pc: "pickChild ?ch (or_else (c_id ?n) (c_title ?n)) = Some ?n"
    by (rule pickChild_key [OF u(1,2) a(1) b(2)])
  have ih: "resolveTitlePath_loop ?n (id_path (kids ?n) (map nat rest))
              = Some (title_path (kids ?n) (map nat rest))"
    by (rule Cons.IH [OF u(3) a(2) nx])
  show ?case
    unfolding tp ip using ch pc ih by simp
qed


lemma siblings_unique_Category [simp]:
  "siblings_unique (Category i t ic ss ch) =
     (titles_unique (cats_of ch) \<and> ids_unique (cats_of ch)
      \<and> (\<forall>k \<in> set (cats_of ch). siblings_unique k))"
  by (subst siblings_unique.simps) simp

lemma siblings_apart_Category [simp]:
  "siblings_apart (Category i t ic ss ch) =
     (ids_apart_from_titles (cats_of ch) \<and> (\<forall>k \<in> set (cats_of ch). siblings_apart k))"
  by (subst siblings_apart.simps) simp

section \<open>Facts about the batch delete loop\<close>

text \<open>One iteration of the loop of \<open>handleBatchDeleteSites\<close> for an item that is not skipped.\<close>

lemma batch_delete_step:
  assumes "it_titles it \<noteq> []"
    and "normalizeSegments (it_path it) (it_segments it) = segs"
    and "pathKey (map Some segs) = key"
    and "key \<noteq> []"
    and "(case map_of pendingMap key of None \<Rightarrow> (segs, getFolderNode stored segs) | Some r \<Rightarrow> r)
           = (rsegs, rsites)"
    and "filter (\<lambda>t. t \<noteq> []) (map (\<lambda>t. trim (or_empty t)) (it_titles it)) = titleSet"
    and "filter (\<lambda>s. \<not> (case s_title s of None \<Rightarrow> False | Some t \<Rightarrow> t \<in> set titleSet)) rsites
           = sites'"
  shows "batch_delete_loop stored (it # items) pendingMap deleted
         = batch_delete_loop stored items (map_set key (rsegs, sites') pendingMap)
             (deleted + (length rsites - length sites'))"
proof -
  have "length sites' \<le> length rsites"
    using assms(7) length_filter_le [of _ rsites] by auto
  then show ?thesis using assms by (simp add: Let_def)
qed

lemma normalize_xy: "normalizeSegments (Some (PathArray [Some (str ''x/y'')])) None = [str ''x/y'']"
  by (simp add: normalizeSegments_def or_empty_def trim_def is_ws_def str_def)

lemma findNode_xy_cat_S: "findNode [cat_S ss, new_unc] [str ''x/y''] 0 = Some (cat_S ss)"
  by (subst findNode.simps) (simp add: cat_S_def)

lemma getFolderNode_xy:
  "getFolderNode (Some (doc_of [cat_S [site_x], new_unc])) [str ''x/y''] = [site_x]"
  by (simp add: getFolderNode_def getNavigationData_doc_of categories_doc_of cats_of_def
      findNode_xy_cat_S)
     (simp add: cat_S_def str_def)

lemma trim_X: "trim (str ''X'') = str ''X''"
  by (simp add: trim_def is_ws_def str_def)

lemma loop_xy:
  "batch_delete_loop (Some (doc_of [cat_S [site_x], new_unc]))
     [\<lparr>it_path = Some (PathArray [Some (str ''x/y'')]), it_segments = None,
       it_titles = [Some (str ''X'')]\<rparr>] [] 0
   = ([(str ''x/y'', [str ''x/y''], [])], 1)"
  by (simp add: normalize_xy pathKey_xy getFolderNode_xy Let_def or_empty_def trim_X)
     (simp add: site_x_def s_title_def str_prop_def str_def)

lemma normalize_A: "normalizeSegments (Some (PathString (str ''A''))) None = [str ''A'']"
  by (simp add: normalizeSegments_def trim_def is_ws_def str_def)

lemma normalize_Q: "normalizeSegments (Some (PathString (str ''Q''))) None = [str ''Q'']"
  by (simp add: normalizeSegments_def trim_def is_ws_def str_def)

lemma pathKey_A: "pathKey [Some (str ''A'')] = str ''A''"
  by (simp add: pathKey_def or_empty_def trim_def is_ws_def str_def)

lemma pathKey_Q: "pathKey [Some (str ''Q'')] = str ''Q''"
  by (simp add: pathKey_def or_empty_def trim_def is_ws_def str_def)

lemma getFolderNode_A:
  "getFolderNode (Some (doc_of [cat_A ss, new_unc])) [str ''A''] = ss"
  by (simp add: getFolderNode_def getNavigationData_doc_of categories_doc_of cats_of_def)
     (subst findNode.simps, simp add: cat_A_def str_def)

lemma getFolderNode_Q:
  "getFolderNode (Some (doc_of [cat_A ss, new_unc])) [str ''Q''] = []"
  by (simp add: getFolderNode_def getNavigationData_doc_of categories_doc_of cats_of_def)
     (subst findNode.simps, simp add: cat_A_def new_unc_def UNC_TITLE_def str_def)

lemma titleSet_ex:
  "filter (\<lambda>t. t \<noteq> []) (map (\<lambda>t. trim (or_empty t)) [Some (str ''nope''), Some (str ''X'')])
     = [str ''nope'', str ''X'']"
  by (simp add: or_empty_def trim_def is_ws_def str_def)


section \<open>Facts about the reserved category after a save\<close>

text \<open>
  Two root lists with the same normal form end in the reserved category together; a
  partial write changes neither the structure nor the metadata of the stored tree and
  never removes a \<open>sites\<close> array.
\<close>

lemma is_unc_or_empty:
  "is_unc c \<longleftrightarrow> or_empty (c_id c) = UNC_ID \<or> or_empty (c_title c) = UNC_TITLE"
  by (auto simp: is_unc_def or_empty_def UNC_ID_def UNC_TITLE_def str_def split: option.splits)

lemma norm_structure_is_unc:
  "norm_structure a = norm_structure b \<Longrightarrow> is_unc a = is_unc b"
  by (cases a; cases b) (simp add: is_unc_or_empty)

lemma same_structure_last_unc:
  assumes "map norm_structure old = map norm_structure new" "new \<noteq> []" "is_unc (last new)"
  shows "old \<noteq> [] \<and> is_unc (last old)"
proof -
  have ne: "old \<noteq> []" using assms(1,2) by auto
  have "norm_structure (last old) = norm_structure (last new)"
    using assms(1,2) ne by (metis last_map)
  then show ?thesis using ne assms(3) norm_structure_is_unc by blast
qed

lemma erase_eq_children:
  "erase_sites a = erase_sites b \<Longrightarrow> (c_children a = None) = (c_children b = None)"
  by (cases a; cases b) (auto split: if_splits)

lemma erase_last:
  assumes "map erase_sites new = map erase_sites old" "old \<noteq> []"
  shows "new \<noteq> [] \<and> erase_sites (last new) = erase_sites (last old)"
proof -
  have ne: "new \<noteq> []" using assms by auto
  then show ?thesis using assms by (metis last_map)
qed

lemma updateNode_shape:
  "\<exists>h x. snd (updateNode dedup cats segs idx) = cats[h := x]
         \<and> (c_sites (cats ! h) \<noteq> None \<longrightarrow> c_sites x \<noteq> None)"
proof -
  have same: ?thesis if "snd (updateNode dedup cats segs idx) = cats"
    using that list_update_id [of cats 0] by metis
  show ?thesis
  proof (cases "fst (updateNode dedup cats segs idx)")
    case False
    then show ?thesis using same updateNode_False_unchanged by blast
  next
    case True
    then have i: "\<not> idx \<ge> length segs"
      by (subst (asm) updateNode.simps) (simp split: if_splits)
    from True i obtain h where h: "findIndex (\<lambda>c. c_title c = Some (segs ! idx)) cats = Some h"
      by (subst (asm) updateNode.simps) (simp split: option.splits)
    show ?thesis
    proof (cases "idx = length segs - 1")
      case l: True
      have "snd (updateNode dedup cats segs idx)
              = cats[h := set_sites (cats ! h)
                   (case map_of dedup (pathKey (map Some segs)) of None \<Rightarrow> []
                    | Some src \<Rightarrow> node_sites src)]"
        using i h l by (subst updateNode.simps) (simp add: Let_def)
      moreover have "c_sites (set_sites c ss) \<noteq> None" for c ss
        by (simp add: set_sites_def)
      ultimately show ?thesis by blast
    next
      case l: False
      let ?r = "updateNode dedup (kids (cats ! h)) segs (idx + 1)"
      have "snd (updateNode dedup cats segs idx)
              = (if fst ?r then cats[h := set_children (cats ! h) (snd ?r)] else cats)"
        using i h l by (subst updateNode.simps) (simp add: Let_def)
      moreover have "c_sites (set_children c cs) = c_sites c" for c cs
        by (simp add: set_children_def)
      ultimately show ?thesis using same by (cases "fst ?r") (simp_all, metis)
    qed
  qed
qed

lemma updateNode_sites_kept:
  "length (snd (updateNode dedup cats segs idx)) = length cats
   \<and> (\<forall>i < length cats. c_sites (cats ! i) \<noteq> None
         \<longrightarrow> c_sites (snd (updateNode dedup cats segs idx) ! i) \<noteq> None)"
proof -
  obtain h x where s: "snd (updateNode dedup cats segs idx) = cats[h := x]"
    and k: "c_sites (cats ! h) \<noteq> None \<longrightarrow> c_sites x \<noteq> None"
    using updateNode_shape by blast
  have "c_sites (cats[h := x] ! i) \<noteq> None"
    if "i < length cats" "c_sites (cats ! i) \<noteq> None" for i
    using that k by (cases "i = h") simp_all
  then show ?thesis unfolding s by simp
qed

lemma apply_entries_sites_kept:
  "length (apply_entries dedup es cats) = length cats
   \<and> (\<forall>i < length cats. c_sites (cats ! i) \<noteq> None
         \<longrightarrow> c_sites (apply_entries dedup es cats ! i) \<noteq> None)"
proof (induction es arbitrary: cats)
  case Nil
  then show ?case by simp
next
  case (Cons e es)
  obtain k u where e: "e = (k, u)" by (cases e)
  let ?c = "snd (updateNode dedup cats (key_segments k) 0)"
  show ?case
    using Cons [of cats] Cons [of ?c] updateNode_sites_kept [of dedup cats "key_segments k" 0] e
    by (auto simp: Let_def)
qed

text \<open>
  A partial write keeps the profile, the structure and the metadata of the stored
  snapshot: only site lists can change, and no category loses its \<open>sites\<close> array.
\<close>

lemma putFolderNodesBulk_keeps_structure:
  assumes "getNavigationData stored = Some snapshot"
  shows "\<exists>d. putFolderNodesBulk stored updates = Some d
           \<and> profile d = profile snapshot
           \<and> categories d \<noteq> None
           \<and> map erase_sites (cats_of (categories d))
               = map erase_sites (cats_of (categories snapshot))
           \<and> (\<forall>i < length (cats_of (categories snapshot)).
                 c_sites (cats_of (categories snapshot) ! i) \<noteq> None
                 \<longrightarrow> c_sites (cats_of (categories d) ! i) \<noteq> None)"
proof -
  obtain cs where s: "stored = Some snapshot" "categories snapshot = Some cs"
    using assms by (auto simp: getNavigationData_def split: option.splits)
  have c: "cats_of (Some xs) = xs" for xs :: "category list"
    by (simp add: cats_of_def)
  show ?thesis
  proof (cases "updates = []")
    case True
    then show ?thesis using s by (simp add: putFolderNodesBulk_def)
  next
    case False
    then show ?thesis
      using s apply_entries_sites_kept [of "dedup_of updates []" "dedup_of updates []" cs]
      by (simp add: putFolderNodesBulk_def getNavigationData_def Let_def c apply_entries_erase)
  qed
qed

lemma complete_kept:
  assumes "map erase_sites new = map erase_sites old"
    and "\<forall>i < length old. c_sites (old ! i) \<noteq> None \<longrightarrow> c_sites (new ! i) \<noteq> None"
    and "old \<noteq> []" "is_unc (last old)"
  shows "new \<noteq> [] \<and> is_unc (last new) \<and> (unc_complete (last old) \<longrightarrow> unc_complete (last new))"
proof -
  have l: "length new = length old" using assms(1) by (metis length_map)
  have e: "new \<noteq> []" "erase_sites (last new) = erase_sites (last old)"
    using erase_last [OF assms(1,3)] by simp_all
  note f = erase_eq_fields [OF e(2)] erase_eq_children [OF e(2)]
  have u: "is_unc (last new)" using assms(4) f by (simp add: is_unc_def)
  have "c_sites (last old) \<noteq> None \<longrightarrow> c_sites (last new) \<noteq> None"
    using assms(2,3) e(1) l by (simp add: last_conv_nth)
  then show ?thesis using e(1) u f by (auto simp: unc_complete_def)
qed

section \<open>Structural changes force a full write\<close>

lemma ensure_unc_first: "ensureUncategorized [new_unc, cat_A []] = [cat_A [], new_unc]"
  by (simp add: ensureUncategorized_def is_unc_def new_unc_def repair_unc_def truthy_def
      cat_A_def UNC_ID_def UNC_TITLE_def FOLDER_ICON_def str_def)

lemma walk_A_unc_same: "walk [cat_A [], new_unc] [cat_A [], new_unc] [] = []"
  by (simp add: walk_Nil walk_Cons byId_get_def cat_key_def or_else_def truthy_def new_unc_def
      cat_A_def cats_of_def UNC_ID_def UNC_TITLE_def str_def)

text \<open>
  Claim C1, as stated: whenever a category is added, removed, renamed or reordered between
  the stored tree and the incoming tree, the plan is the full write. It fails when the only
  change is the position of the reserved category: the stored root list is \<open>[A, Uncategorized]\<close>,
  the incoming one is \<open>[Uncategorized, A]\<close>; \<open>ensureUncategorized\<close> moves the reserved
  category back to the end before the comparison, and nothing is written.
\<close>

theorem C1_reorder_reserved_counterexample:
  "differs_at [cat_A [], new_unc] [new_unc, cat_A []] [0]
   \<and> plan_of (handleSaveAdminData (Some (doc_of [cat_A [], new_unc]))
                (Some (doc_of [new_unc, cat_A []]))) = Some PlanNone"
proof -
  have d: "differs_at [cat_A [], new_unc] [new_unc, cat_A []] [0]"
    by (simp add: differs_at_def new_unc_def cat_A_def or_empty_def UNC_ID_def str_def)
  have "handleSaveAdminData (Some (doc_of [cat_A [], new_unc])) (Some (doc_of [new_unc, cat_A []]))
          = NoopSkip"
    by (simp add: handleSaveAdminData_def getNavigationData_def doc_of_def ensure_unc_first
        walk_A_unc_same isSameStructure_def isSameMeta_def cats_of_def)
  with d show ?thesis by simp
qed

text \<open>
  Claim C1, amended: the incoming tree is compared after \<open>ensureUncategorized\<close> has
  normalised its root list. If the stored tree and the normalised incoming tree differ at
  any index path (a category exists there in one tree only, or the two categories there
  have different ids or titles) the plan is the full write, whatever the site lists are.
\<close>

theorem C1_structural_change_full:
  assumes "getNavigationData stored = Some currentData"
    and "differs_at (cats_of (categories currentData))
           (cats_of (map_option ensureUncategorized (categories data))) p"
  shows "plan_of (handleSaveAdminData stored (Some data)) = Some PlanFull"
proof -
  have "\<not> isSameStructure (categories currentData)
            (map_option ensureUncategorized (categories data))"
    using assms(2) same_structure_no_diff unfolding isSameStructure_def by blast
  then show ?thesis using assms(1) by (simp add: handleSaveAdminData_def)
qed

theorem C1_structural_change_full_witness:
  "getNavigationData (Some (doc_of [new_unc])) = Some (doc_of [new_unc])
   \<and> differs_at (cats_of (categories (doc_of [new_unc])))
        (cats_of (map_option ensureUncategorized (categories (doc_of [cat_A []])))) [0]
   \<and> plan_of (handleSaveAdminData (Some (doc_of [new_unc])) (Some (doc_of [cat_A []])))
       = Some PlanFull"
proof -
  have a: "getNavigationData (Some (doc_of [new_unc])) = Some (doc_of [new_unc])"
    by (rule getNavigationData_doc_of)
  have e: "ensureUncategorized [cat_A []] = [cat_A [], new_unc]"
    using ensure_append_new [of "[cat_A []]"] not_unc_cat_A by simp
  have b: "differs_at (cats_of (categories (doc_of [new_unc])))
        (cats_of (map_option ensureUncategorized (categories (doc_of [cat_A []])))) [0]"
    by (simp only: categories_doc_of option.map e)
       (simp add: cats_of_def differs_at_def new_unc_def cat_A_def or_empty_def UNC_ID_def str_def)
  show ?thesis
    using a b C1_structural_change_full [OF a b] by simp
qed

section \<open>One changed site list gives one partial update\<close>

text \<open>
  Claim C2, as stated: two trees equal in structure and metadata in which exactly one
  category's site list differs give a partial plan with exactly one entry. It fails in two
  ways. The first is how the handler is built: when neither tree has the reserved category,
  the incoming tree is normalised by \<open>ensureUncategorized\<close> before the comparison and no
  longer has the structure of the stored one, so the plan is the full write. The second is
  a defect of \<open>walk\<close>: it pairs nodes through a \<open>Map\<close> keyed by \<open>id || title\<close>, and when the
  id of one sibling is the title of another (all ids and all titles being different) both
  incoming nodes are compared with the second stored node. Below, the site list of the
  first category \<open>P\<close> changes from empty to \<open>[site_x]\<close>, which is the list of the second
  category, and nothing is written: the change is lost.
\<close>

theorem C2_single_change_counterexample:
  "map erase_sites [cat_A []] = map erase_sites [cat_A [site_x]]
   \<and> plan_of (handleSaveAdminData (Some (doc_of [cat_A []])) (Some (doc_of [cat_A [site_x]])))
       = Some PlanFull
   \<and> map erase_sites [cat_P [], cat_X [site_x], new_unc]
       = map erase_sites [cat_P [site_x], cat_X [site_x], new_unc]
   \<and> safe_sites (cat_P []) \<noteq> safe_sites (cat_P [site_x])
   \<and> plan_of (handleSaveAdminData (Some (doc_of [cat_P [], cat_X [site_x], new_unc]))
                (Some (doc_of [cat_P [site_x], cat_X [site_x], new_unc])))
       = Some PlanNone"
proof -
  have s1: "map erase_sites [cat_A []] = map erase_sites [cat_A [site_x]]"
    by (simp add: cat_A_def)
  have e0: "ensureUncategorized [cat_A [site_x]] = [cat_A [site_x], new_unc]"
    using ensure_append_new [of "[cat_A [site_x]]"] not_unc_cat_A by simp
  have a: "handleSaveAdminData (Some (doc_of [cat_A []])) (Some (doc_of [cat_A [site_x]]))
             = SnapshotWrite (doc_of [cat_A [site_x], new_unc])"
    by (simp add: handleSaveAdminData_def getNavigationData_def doc_of_def e0
        isSameStructure_def cats_of_def)
  have s2: "map erase_sites [cat_P [], cat_X [site_x], new_unc]
       = map erase_sites [cat_P [site_x], cat_X [site_x], new_unc]"
    by (rule erase_P_X)
  have d: "safe_sites (cat_P []) \<noteq> safe_sites (cat_P [site_x])"
    by (simp add: cat_P_def)
  have b: "handleSaveAdminData (Some (doc_of [cat_P [], cat_X [site_x], new_unc]))
                (Some (doc_of [cat_P [site_x], cat_X [site_x], new_unc])) = NoopSkip"
    by (simp add: save_P_X walk_P_X)
  from s1 a s2 d b show ?thesis by simp
qed

text \<open>
  Claim C2, amended: let the incoming tree be normalised by \<open>ensureUncategorized\<close>. If the
  stored tree and the normalised incoming tree are equal up to their site lists, sibling
  keys \<open>id || title\<close> are pairwise different at every level, and the direct site lists
  differ at exactly one index path \<open>p\<close>, then the save operation issues the partial write
  with exactly one entry: the title path of \<open>p\<close> and the incoming site list of that category.
  Two site lists differ when their serialisations do: another order of the properties of
  a site, or one more property, is a difference.
\<close>

theorem C2_single_site_change_partial:
  assumes "getNavigationData stored = Some currentData"
    and "categories currentData = Some old"
    and "categories data = Some new"
    and "map erase_sites old = map erase_sites (ensureUncategorized new)"
    and "forest_keys_unique old"
    and "node_at old p = Some a"
    and "node_at (ensureUncategorized new) p = Some b"
    and "safe_sites a \<noteq> safe_sites b"
    and "\<And>q. q \<noteq> p \<Longrightarrow> sites_agree old (ensureUncategorized new) q"
  shows "handleSaveAdminData stored (Some data)
         = BulkWrite [\<lparr>segments = title_path (ensureUncategorized new) p,
                       node_sites = safe_sites b\<rparr>]"
proof -
  let ?new = "ensureUncategorized new"
  have w: "walk old ?new [] = [\<lparr>segments = title_path ?new p, node_sites = safe_sites b\<rparr>]"
    using walk_lockstep [OF assms(4,5), of "[]"]
      lockstep_single [OF assms(6,7,8,9), of "[]"] by simp
  show ?thesis
    using assms(1,2,3) erase_eq_same [OF assms(4)] w
    by (simp add: handleSaveAdminData_def isSameStructure_def isSameMeta_def cats_of_def)
qed

theorem C2_single_site_change_partial_witness:
  "getNavigationData (Some (doc_of [cat_A [site_x], new_unc])) = Some (doc_of [cat_A [site_x], new_unc])
   \<and> categories (doc_of [cat_A [site_x], new_unc]) = Some [cat_A [site_x], new_unc]
   \<and> categories (doc_of [cat_A [site_x_stamped], new_unc]) = Some [cat_A [site_x_stamped], new_unc]
   \<and> map erase_sites [cat_A [site_x], new_unc]
       = map erase_sites (ensureUncategorized [cat_A [site_x_stamped], new_unc])
   \<and> forest_keys_unique [cat_A [site_x], new_unc]
   \<and> node_at [cat_A [site_x], new_unc] [0] = Some (cat_A [site_x])
   \<and> node_at (ensureUncategorized [cat_A [site_x_stamped], new_unc]) [0] = Some (cat_A [site_x_stamped])
   \<and> safe_sites (cat_A [site_x]) \<noteq> safe_sites (cat_A [site_x_stamped])
   \<and> handleSaveAdminData (Some (doc_of [cat_A [site_x], new_unc]))
        (Some (doc_of [cat_A [site_x_stamped], new_unc]))
       = BulkWrite [\<lparr>segments = [Some (str ''A'')], node_sites = [site_x_stamped]\<rparr>]"
proof -
  have e: "ensureUncategorized [cat_A [site_x_stamped], new_unc] = [cat_A [site_x_stamped], new_unc]"
    using ensure_fixpoint [of "[cat_A [site_x_stamped]]"] not_unc_cat_A by simp
  have h1: "getNavigationData (Some (doc_of [cat_A [site_x], new_unc]))
              = Some (doc_of [cat_A [site_x], new_unc])"
    by (rule getNavigationData_doc_of)
  have h2: "categories (doc_of [cat_A [site_x], new_unc]) = Some [cat_A [site_x], new_unc]"
    by (rule categories_doc_of)
  have h3: "categories (doc_of [cat_A [site_x_stamped], new_unc]) = Some [cat_A [site_x_stamped], new_unc]"
    by (rule categories_doc_of)
  have h4: "map erase_sites [cat_A [site_x], new_unc]
       = map erase_sites (ensureUncategorized [cat_A [site_x_stamped], new_unc])"
    by (simp only: e) (simp add: cat_A_def)
  have h5: "forest_keys_unique [cat_A [site_x], new_unc]"
    by (simp add: forest_keys_unique_def cat_key_cat_A cat_key_new_unc key_a_not_unc)
       (simp add: cat_A_def new_unc_def cats_of_def)
  have h6: "node_at [cat_A [site_x], new_unc] [0] = Some (cat_A [site_x])"
    by simp
  have h7: "node_at (ensureUncategorized [cat_A [site_x_stamped], new_unc]) [0] = Some (cat_A [site_x_stamped])"
    by (simp add: e)
  have h8: "safe_sites (cat_A [site_x]) \<noteq> safe_sites (cat_A [site_x_stamped])"
    by (simp add: cat_A_def site_x_stamped_def)
  have kA: "kids (cat_A ss) = []" for ss
    by (simp add: cat_A_def cats_of_def)
  have kU: "kids new_unc = []"
    by (simp add: new_unc_def cats_of_def)
  have h9: "sites_agree [cat_A [site_x], new_unc] (ensureUncategorized [cat_A [site_x_stamped], new_unc]) q"
    if "q \<noteq> [0]" for q
  proof (cases q)
    case Nil
    then show ?thesis by (simp add: sites_agree_Nil)
  next
    case (Cons i r)
    show ?thesis
    proof (cases i)
      case 0
      with Cons that have "r \<noteq> []" by simp
      with Cons 0 show ?thesis
        by (simp add: e sites_agree_kids kA sites_agree_Nil_left)
    next
      case (Suc j)
      show ?thesis
      proof (cases j)
        case 0
        show ?thesis
        proof (cases "r = []")
          case True
          with Cons Suc 0 show ?thesis by (simp add: e sites_agree_def)
        next
          case False
          with Cons Suc 0 show ?thesis
            by (simp add: e sites_agree_tail sites_agree_kids kU sites_agree_Nil_left)
        qed
      next
        case (Suc k)
        with Cons \<open>i = Suc j\<close> show ?thesis
          by (simp add: e sites_agree_tail sites_agree_Nil_left)
      qed
    qed
  qed
  have t: "title_path (ensureUncategorized [cat_A [site_x_stamped], new_unc]) [0] = [Some (str ''A'')]"
    by (simp only: e) (simp add: cat_A_def)
  have s: "safe_sites (cat_A [site_x_stamped]) = [site_x_stamped]"
    by (simp add: cat_A_def)
  show ?thesis
    using h1 h2 h3 h4 h5 h6 h7 h8
      C2_single_site_change_partial [OF h1 h2 h3 h4 h5 h6 h7 h8 h9] t s by simp
qed

section \<open>Saving the stored tree again\<close>

text \<open>
  Claim C3, as stated: for every tree \<open>T\<close> the plan for \<open>(T, T)\<close> is \<open>none\<close>. It fails in
  two ways. The first is how the handler is built: a stored tree without the reserved
  category (here the empty root list) is compared with its normalised copy, which has one
  more root category, and a full write follows. The second is a defect of \<open>walk\<close>: when the
  id of one sibling is the title of another, so that both have the same key \<open>id || title\<close>,
  the \<open>Map\<close> pairs the first incoming node with the second stored node, and a tree saved
  over itself yields a partial write.
\<close>

theorem C3_same_tree_counterexample:
  "plan_of (handleSaveAdminData (Some (doc_of [])) (Some (doc_of []))) = Some PlanFull
   \<and> plan_of (handleSaveAdminData (Some (doc_of [cat_P [site_x], cat_X [], new_unc]))
                (Some (doc_of [cat_P [site_x], cat_X [], new_unc])))
       = Some (PlanPartial [\<lparr>segments = [Some (str ''P'')], node_sites = [site_x]\<rparr>])"
proof -
  have e0: "ensureUncategorized [] = [new_unc]"
    using ensure_append_new [of "[]"] by simp
  have a: "handleSaveAdminData (Some (doc_of [])) (Some (doc_of []))
             = SnapshotWrite (doc_of [new_unc])"
    by (simp add: handleSaveAdminData_def getNavigationData_def doc_of_def e0
        isSameStructure_def cats_of_def)
  have b: "handleSaveAdminData (Some (doc_of [cat_P [site_x], cat_X [], new_unc]))
                (Some (doc_of [cat_P [site_x], cat_X [], new_unc]))
             = BulkWrite [\<lparr>segments = [Some (str ''P'')], node_sites = [site_x]\<rparr>]"
    by (simp add: save_P_X walk_P_X)
  from a b show ?thesis by simp
qed

text \<open>
  Claim C3, amended: for every stored tree \<open>T\<close> whose root list is already in the form
  \<open>ensureUncategorized\<close> produces (the reserved category complete and last) and in which
  sibling keys \<open>id || title\<close> are pairwise different at every level, saving \<open>T\<close> again is
  a no-op: no write is issued.
\<close>

theorem C3_same_tree_noop:
  assumes "getNavigationData stored = Some T"
    and "categories T = Some cats"
    and "ensureUncategorized cats = cats"
    and "forest_keys_unique cats"
  shows "handleSaveAdminData stored (Some T) = NoopSkip"
proof -
  have inc: "T\<lparr>categories := map_option ensureUncategorized (categories T)\<rparr> = T"
    using assms(2,3) by simp
  have "lockstep cats cats [] = []"
    by (rule lockstep_agree) (rule sites_agree_refl)
  then have "walk cats cats [] = []"
    using walk_lockstep [of cats cats "[]"] assms(4) by simp
  then show ?thesis
    using assms(1,2) inc
    by (simp add: handleSaveAdminData_def isSameStructure_def isSameMeta_def cats_of_def)
qed

theorem C3_same_tree_noop_witness:
  "getNavigationData (Some (doc_of [cat_A [site_x_stamped], new_unc])) = Some (doc_of [cat_A [site_x_stamped], new_unc])
   \<and> categories (doc_of [cat_A [site_x_stamped], new_unc]) = Some [cat_A [site_x_stamped], new_unc]
   \<and> ensureUncategorized [cat_A [site_x_stamped], new_unc] = [cat_A [site_x_stamped], new_unc]
   \<and> forest_keys_unique [cat_A [site_x_stamped], new_unc]
   \<and> handleSaveAdminData (Some (doc_of [cat_A [site_x_stamped], new_unc]))
        (Some (doc_of [cat_A [site_x_stamped], new_unc])) = NoopSkip"
proof -
  have a: "getNavigationData (Some (doc_of [cat_A [site_x_stamped], new_unc]))
             = Some (doc_of [cat_A [site_x_stamped], new_unc])"
    by (rule getNavigationData_doc_of)
  have b: "categories (doc_of [cat_A [site_x_stamped], new_unc]) = Some [cat_A [site_x_stamped], new_unc]"
    by (rule categories_doc_of)
  have c: "ensureUncategorized [cat_A [site_x_stamped], new_unc] = [cat_A [site_x_stamped], new_unc]"
    using ensure_fixpoint [of "[cat_A [site_x_stamped]]"] not_unc_cat_A by simp
  have d: "forest_keys_unique [cat_A [site_x_stamped], new_unc]"
    by (simp add: forest_keys_unique_def cat_key_cat_A cat_key_new_unc key_a_not_unc)
       (simp add: cat_A_def new_unc_def cats_of_def)
  show ?thesis
    using a b c d C3_same_tree_noop [OF a b c d] by simp
qed

section \<open>Updates whose title path does not resolve\<close>

lemma findNode_B_cat_A: "findNode [cat_A ss, new_unc] [str ''B''] 0 = None"
  by (subst findNode.simps) (simp add: cat_A_def new_unc_def UNC_TITLE_def str_def)

lemma findNode_x_cat_S_A: "findNode [cat_S ss, cat_A ss', new_unc] [str ''x'', str ''y''] 0 = None"
  by (subst findNode.simps) (simp add: cat_S_def cat_A_def new_unc_def UNC_TITLE_def str_def)

lemma walk_cat_S_A:
  "walk [cat_S [], cat_A [], new_unc] [cat_S [site_x], cat_A [site_y], new_unc] []
     = [\<lparr>segments = [Some (str ''x/y'')], node_sites = [site_x]\<rparr>,
        \<lparr>segments = [Some (str ''A'')], node_sites = [site_y]\<rparr>]"
  by (simp add: walk_Nil walk_Cons byId_get_def cat_key_def or_else_def truthy_def new_unc_def
      cat_S_def cat_A_def cats_of_def UNC_ID_def UNC_TITLE_def str_def)

lemma save_cat_S_A:
  "handleSaveAdminData (Some (doc_of [cat_S [], cat_A [], new_unc]))
     (Some (doc_of [cat_S [site_x], cat_A [site_y], new_unc]))
   = BulkWrite [\<lparr>segments = [Some (str ''x/y'')], node_sites = [site_x]\<rparr>,
                \<lparr>segments = [Some (str ''A'')], node_sites = [site_y]\<rparr>]"
proof -
  have e: "ensureUncategorized [cat_S [site_x], cat_A [site_y], new_unc]
             = [cat_S [site_x], cat_A [site_y], new_unc]"
    using ensure_fixpoint [of "[cat_S [site_x], cat_A [site_y]]"] not_unc_cat_S not_unc_cat_A
    by simp
  have s: "map erase_sites [cat_S [], cat_A [], new_unc]
             = map erase_sites [cat_S [site_x], cat_A [site_y], new_unc]"
    by (simp add: cat_S_def cat_A_def)
  have same: "isSameStructure (Some [cat_S [], cat_A [], new_unc])
                (Some [cat_S [site_x], cat_A [site_y], new_unc])"
    "isSameMeta (Some [cat_S [], cat_A [], new_unc])
                (Some [cat_S [site_x], cat_A [site_y], new_unc])"
    using erase_eq_same [OF s] by (simp_all add: isSameStructure_def isSameMeta_def cats_of_def)
  show ?thesis
    using same
    by (simp add: handleSaveAdminData_def getNavigationData_def doc_of_def e walk_cat_S_A
        cats_of_def)
qed

lemma put_cat_S_A:
  "putFolderNodesBulk (Some (doc_of [cat_S [], cat_A [], new_unc]))
     [\<lparr>segments = [Some (str ''x/y'')], node_sites = [site_x]\<rparr>,
      \<lparr>segments = [Some (str ''A'')], node_sites = [site_y]\<rparr>]
   = Some (doc_of [cat_S [], cat_A [site_y], new_unc])"
proof -
  let ?u1 = "\<lparr>segments = [Some (str ''x/y'')], node_sites = [site_x]\<rparr>"
  let ?u2 = "\<lparr>segments = [Some (str ''A'')], node_sites = [site_y]\<rparr>"
  let ?d = "[(str ''x/y'', ?u1), (str ''A'', ?u2)]"
  have k: "str ''x/y'' \<noteq> []" "str ''A'' \<noteq> []" "str ''x/y'' \<noteq> str ''A''"
    by (simp_all add: str_def)
  have d: "dedup_of [?u1, ?u2] [] = ?d"
    using k by (simp add: pathKey_xy pathKey_A Let_def)
  have sa: "key_segments (str ''A'') = [str ''A'']"
    by (simp add: key_segments_def str_def)
  have ua: "updateNode ?d [cat_S [], cat_A [], new_unc] (key_segments (str ''A'')) 0
              = (True, [cat_S [], cat_A [site_y], new_unc])"
    unfolding sa using k
    by (subst updateNode.simps) (simp add: pathKey_A cat_S_def cat_A_def set_sites_def)
  have "apply_entries ?d ?d [cat_S [], cat_A [], new_unc] = [cat_S [], cat_A [site_y], new_unc]"
    by (rule apply_two_entries [OF k(3) _ _ _ ua])
       (simp_all add: key_segments_xy findNode_x_cat_S_A sa)
  then show ?thesis
    using putFolderNodesBulk_doc_of [of "[?u1, ?u2]" "[cat_S [], cat_A [], new_unc]"]
    by (simp only: d) simp
qed

lemma put_B_A:
  "putFolderNodesBulk (Some (doc_of [cat_A [], new_unc]))
     [\<lparr>segments = [Some (str ''B'')], node_sites = [site_x]\<rparr>,
      \<lparr>segments = [Some (str ''A'')], node_sites = [site_y]\<rparr>]
   = Some (doc_of [cat_A [site_y], new_unc])"
proof -
  let ?u1 = "\<lparr>segments = [Some (str ''B'')], node_sites = [site_x]\<rparr>"
  let ?u2 = "\<lparr>segments = [Some (str ''A'')], node_sites = [site_y]\<rparr>"
  let ?d = "[(str ''B'', ?u1), (str ''A'', ?u2)]"
  have k: "str ''B'' \<noteq> []" "str ''A'' \<noteq> []" "str ''B'' \<noteq> str ''A''"
    by (simp_all add: str_def)
  have d: "dedup_of [?u1, ?u2] [] = ?d"
    using k by (simp add: pathKey_B pathKey_A Let_def)
  have sa: "key_segments (str ''A'') = [str ''A'']"
    by (simp add: key_segments_def str_def)
  have ua: "updateNode ?d [cat_A [], new_unc] (key_segments (str ''A'')) 0
              = (True, [cat_A [site_y], new_unc])"
    unfolding sa using k
    by (subst updateNode.simps) (simp add: pathKey_A cat_A_def set_sites_def)
  have "apply_entries ?d ?d [cat_A [], new_unc] = [cat_A [site_y], new_unc]"
    by (rule apply_two_entries [OF k(3) _ _ _ ua])
       (simp_all add: key_segments_B findNode_B_cat_A sa)
  then show ?thesis
    using putFolderNodesBulk_doc_of [of "[?u1, ?u2]" "[cat_A [], new_unc]"]
    by (simp only: d) simp
qed

text \<open>
  Claim C4: when an update of a partial write has a title path that cannot be resolved in
  the stored tree, the system falls back to a full-document write and never drops the
  update silently. The code has no such fallback: \<open>putFolderNodesBulk\<close> calls \<open>updateNode\<close>
  for every entry, does not look at its result, and writes the snapshot; the handler then
  answers with success.

  In the save request below the incoming tree changes the site lists of the categories
  \<open>x/y\<close> and \<open>A\<close>. The handler chooses the partial write with the two title paths. The path
  \<open>[x/y]\<close> is joined into the key \<open>x/y\<close> and split into \<open>[x, y]\<close>, which does not resolve;
  the path \<open>[A]\<close> resolves. The snapshot stored afterwards has the new site list of \<open>A\<close> and
  the old, empty one of \<open>x/y\<close>: it is not the incoming tree, and the update of \<open>x/y\<close> is
  gone. The same happens to a batch that names a category \<open>B\<close> which the stored tree does
  not have: the update of \<open>B\<close> is dropped and that of \<open>A\<close> is applied.
\<close>

theorem C4_unresolved_update_dropped:
  "handleSaveAdminData (Some (doc_of [cat_S [], cat_A [], new_unc]))
     (Some (doc_of [cat_S [site_x], cat_A [site_y], new_unc]))
     = BulkWrite [\<lparr>segments = [Some (str ''x/y'')], node_sites = [site_x]\<rparr>,
                  \<lparr>segments = [Some (str ''A'')], node_sites = [site_y]\<rparr>]
   \<and> findNode [cat_S [], cat_A [], new_unc] (key_segments (pathKey [Some (str ''x/y'')])) 0 = None
   \<and> stored_after (Some (doc_of [cat_S [], cat_A [], new_unc]))
        (handleSaveAdminData (Some (doc_of [cat_S [], cat_A [], new_unc]))
           (Some (doc_of [cat_S [site_x], cat_A [site_y], new_unc])))
       = Some (doc_of [cat_S [], cat_A [site_y], new_unc])
   \<and> findNode [cat_A [], new_unc] (key_segments (pathKey [Some (str ''B'')])) 0 = None
   \<and> putFolderNodesBulk (Some (doc_of [cat_A [], new_unc]))
        [\<lparr>segments = [Some (str ''B'')], node_sites = [site_x]\<rparr>,
         \<lparr>segments = [Some (str ''A'')], node_sites = [site_y]\<rparr>]
       = Some (doc_of [cat_A [site_y], new_unc])"
proof -
  have b: "findNode [cat_S [], cat_A [], new_unc] (key_segments (pathKey [Some (str ''x/y'')])) 0
             = None"
    by (simp only: pathKey_xy key_segments_xy findNode_x_cat_S_A)
  have c: "findNode [cat_A [], new_unc] (key_segments (pathKey [Some (str ''B'')])) 0 = None"
    by (simp only: pathKey_B key_segments_B findNode_B_cat_A)
  show ?thesis
    by (simp only: save_cat_S_A stored_after.simps put_cat_S_A put_B_A b c simp_thms)
qed

text \<open>
  The site lists that \<open>getFolderNode\<close> reads from the snapshot stored after the save
  request: the one of \<open>x/y\<close> is still empty, the one of \<open>A\<close> is the incoming one.
\<close>

theorem C4_unresolved_update_dropped_witness:
  "getFolderNode (stored_after (Some (doc_of [cat_S [], cat_A [], new_unc]))
        (handleSaveAdminData (Some (doc_of [cat_S [], cat_A [], new_unc]))
           (Some (doc_of [cat_S [site_x], cat_A [site_y], new_unc])))) [str ''x/y''] = []
   \<and> getFolderNode (stored_after (Some (doc_of [cat_S [], cat_A [], new_unc]))
        (handleSaveAdminData (Some (doc_of [cat_S [], cat_A [], new_unc]))
           (Some (doc_of [cat_S [site_x], cat_A [site_y], new_unc])))) [str ''A''] = [site_y]"
proof -
  have f1: "findNode [cat_S [], cat_A [site_y], new_unc] [str ''x/y''] 0 = Some (cat_S [])"
    by (subst findNode.simps) (simp add: cat_S_def)
  have f2: "findNode [cat_S [], cat_A [site_y], new_unc] [str ''A''] 0 = Some (cat_A [site_y])"
    by (subst findNode.simps) (simp add: cat_S_def cat_A_def str_def)
  have g1: "getFolderNode (Some (doc_of [cat_S [], cat_A [site_y], new_unc])) [str ''x/y''] = []"
    by (simp add: getFolderNode_def getNavigationData_doc_of categories_doc_of cats_of_def f1)
       (simp add: cat_S_def str_def)
  have g2: "getFolderNode (Some (doc_of [cat_S [], cat_A [site_y], new_unc])) [str ''A''] = [site_y]"
    by (simp add: getFolderNode_def getNavigationData_doc_of categories_doc_of cats_of_def f2)
       (simp add: cat_A_def str_def)
  have s: "stored_after (Some (doc_of [cat_S [], cat_A [], new_unc]))
        (handleSaveAdminData (Some (doc_of [cat_S [], cat_A [], new_unc]))
           (Some (doc_of [cat_S [site_x], cat_A [site_y], new_unc])))
       = Some (doc_of [cat_S [], cat_A [site_y], new_unc])"
    using C4_unresolved_update_dropped by blast
  show ?thesis
    by (simp only: s g1 g2 simp_thms)
qed

section \<open>Adding a site whose url is already present\<close>

text \<open>
  Claim C5: an add-site request whose url already exists among the direct sites of the
  target category is rejected with HTTP 409 and the site list is unchanged. The handler
  passes \<open>HTTP_STATUS.CONFLICT\<close> to \<open>createErrorResponse\<close>, but \<open>HTTP_STATUS\<close> has no member
  \<open>CONFLICT\<close>; the argument is \<open>undefined\<close>, the default status applies, and the response has
  status 400. The tree is unchanged, as claimed. The request below adds a site with a new
  title and the url of \<open>site_x\<close> to the category that holds \<open>site_x\<close>.
\<close>

theorem C5_duplicate_url_status_400:
  "HTTP_STATUS ''CONFLICT'' = None
   \<and> handleAddSite (\<lambda>u. None) [cat_A [site_x]]
        \<lparr>b_categoryId = Some (str ''a''), b_title = Some (str ''Z''),
         b_url = Some (str ''http://x''), b_description = Some (str ''d''), b_icon = None\<rparr>
       = (Some 400, [cat_A [site_x]])"
proof -
  have a: "HTTP_STATUS ''CONFLICT'' = None"
    by (simp add: HTTP_STATUS_def)
  have c: "createErrorResponse (HTTP_STATUS ''CONFLICT'') = Some 400"
    by (simp add: a createErrorResponse_def) (simp add: HTTP_STATUS_def)
  have "handleAddSite (\<lambda>u. None) [cat_A [site_x]]
        \<lparr>b_categoryId = Some (str ''a''), b_title = Some (str ''Z''),
         b_url = Some (str ''http://x''), b_description = Some (str ''d''), b_icon = None\<rparr>
       = (createErrorResponse (HTTP_STATUS ''CONFLICT''), [cat_A [site_x]])"
    by (simp add: handleAddSite_def cat_A_def site_x_def s_title_def s_url_def str_prop_def truthy_def str_def)
  with a c show ?thesis by simp
qed

text \<open>The two components of the result: the status is 400 and the tree is the one given.\<close>

theorem C5_duplicate_url_status_400_witness:
  "fst (handleAddSite (\<lambda>u. None) [cat_A [site_x]]
        \<lparr>b_categoryId = Some (str ''a''), b_title = Some (str ''Z''),
         b_url = Some (str ''http://x''), b_description = Some (str ''d''), b_icon = None\<rparr>)
     = Some 400
   \<and> snd (handleAddSite (\<lambda>u. None) [cat_A [site_x]]
        \<lparr>b_categoryId = Some (str ''a''), b_title = Some (str ''Z''),
         b_url = Some (str ''http://x''), b_description = Some (str ''d''), b_icon = None\<rparr>)
     = [cat_A [site_x]]"
  using C5_duplicate_url_status_400 by simp

section \<open>Moving a site to a category that has its url\<close>

text \<open>
  Claim C6: a move removes the site from the source and appends it to the destination,
  except that the append is skipped when the destination already has a site with the same
  url. \<open>handleBatchMoveSites\<close> tests \<open>canInsertSite\<close> before it pushes; \<open>handleMoveSite\<close> pushes
  unconditionally. Below, category \<open>a\<close> holds \<open>site_x\<close>, category \<open>b\<close> holds \<open>site_x2\<close> with
  the same url and another title; moving \<open>site_x\<close> from \<open>a\<close> to \<open>b\<close> succeeds and leaves
  \<open>b\<close> with two sites of one url.
\<close>

theorem C6_single_move_duplicates_url:
  "s_url site_x = s_url site_x2
   \<and> handleMoveSite [cat_A [site_x], cat_B [site_x2]] (str ''a'') (str ''X'') (Some (str ''b''))
       = (Some 200, [cat_A [], cat_B [site_x2, site_x]])"
proof -
  have u: "s_url site_x = s_url site_x2"
    by (simp add: site_x_def site_x2_def s_url_def str_prop_def str_def)
  have ok: "createSuccessResponse = Some 200"
    by (simp add: createSuccessResponse_def HTTP_STATUS_def)
  have "handleMoveSite [cat_A [site_x], cat_B [site_x2]] (str ''a'') (str ''X'') (Some (str ''b''))
       = (createSuccessResponse, [cat_A [], cat_B [site_x2, site_x]])"
    by (simp add: handleMoveSite_def cat_A_def cat_B_def site_x_def site_x2_def s_title_def str_prop_def set_sites_def
        truthy_def str_def Let_def)
  with u ok show ?thesis by simp
qed

text \<open>The site list of the destination after the move.\<close>

theorem C6_single_move_duplicates_url_witness:
  "map s_url (safe_sites (snd (handleMoveSite [cat_A [site_x], cat_B [site_x2]]
                                (str ''a'') (str ''X'') (Some (str ''b''))) ! 1))
     = [Some (str ''http://x''), Some (str ''http://x'')]"
  using C6_single_move_duplicates_url
  by (simp add: cat_B_def site_x_def site_x2_def s_url_def str_prop_def str_def)

section \<open>Batch deletion of sites\<close>

text \<open>
  A batch with an item for a category that does not exist and an item that names one
  existing and one missing site of category \<open>A\<close>: the loop goes through all items, one site
  is removed, and the count is 1.
\<close>

lemma batch_delete_loop_example:
  "batch_delete_loop (Some (doc_of [cat_A [site_x, site_y], new_unc]))
     [\<lparr>it_path = Some (PathString (str ''Q'')), it_segments = None, it_titles = [Some (str ''X'')]\<rparr>,
      \<lparr>it_path = Some (PathString (str ''A'')), it_segments = None,
       it_titles = [Some (str ''nope''), Some (str ''X'')]\<rparr>] [] 0
   = ([(str ''Q'', [str ''Q''], []), (str ''A'', [str ''A''], [site_y])], 1)"
proof -
  let ?st = "Some (doc_of [cat_A [site_x, site_y], new_unc])"
  let ?i1 = "\<lparr>it_path = Some (PathString (str ''Q'')), it_segments = None, it_titles = [Some (str ''X'')]\<rparr>"
  let ?i2 = "\<lparr>it_path = Some (PathString (str ''A'')), it_segments = None,
       it_titles = [Some (str ''nope''), Some (str ''X'')]\<rparr>"
  have kq: "str ''Q'' \<noteq> []" "str ''A'' \<noteq> []" "str ''Q'' \<noteq> str ''A''" by (simp_all add: str_def)
  have s1: "batch_delete_loop ?st [?i1, ?i2] [] 0
          = batch_delete_loop ?st [?i2] (map_set (str ''Q'') ([str ''Q''], []) []) (0 + (length ([]::site list) - length ([]::site list)))"
  proof (rule batch_delete_step)
    show "it_titles ?i1 \<noteq> []" by simp
    show "normalizeSegments (it_path ?i1) (it_segments ?i1) = [str ''Q'']" by (simp add: normalize_Q)
    show "pathKey (map Some [str ''Q'']) = str ''Q''" by (simp add: pathKey_Q)
    show "str ''Q'' \<noteq> []" by fact
    show "(case map_of [] (str ''Q'') of None \<Rightarrow> ([str ''Q''], getFolderNode ?st [str ''Q'']) | Some r \<Rightarrow> r)
           = ([str ''Q''], [])" by (simp add: getFolderNode_Q)
    show "filter (\<lambda>t. t \<noteq> []) (map (\<lambda>t. trim (or_empty t)) (it_titles ?i1)) = [str ''X'']"
      by (simp add: or_empty_def trim_def is_ws_def str_def)
    show "filter (\<lambda>s. \<not> (case s_title s of None \<Rightarrow> False | Some t \<Rightarrow> t \<in> set [str ''X''])) [] = []"
      by simp
  qed
  have f: "filter (\<lambda>s. \<not> (case s_title s of None \<Rightarrow> False
                             | Some t \<Rightarrow> t \<in> set [str ''nope'', str ''X''])) [site_x, site_y] = [site_y]"
    by (simp add: site_x_def site_y_def s_title_def str_prop_def str_def)
  have s2: "batch_delete_loop ?st [?i2] [(str ''Q'', [str ''Q''], [])] 0
          = batch_delete_loop ?st [] (map_set (str ''A'') ([str ''A''], [site_y]) [(str ''Q'', [str ''Q''], [])])
              (0 + (length [site_x, site_y] - length [site_y]))"
  proof (rule batch_delete_step)
    show "it_titles ?i2 \<noteq> []" by simp
    show "normalizeSegments (it_path ?i2) (it_segments ?i2) = [str ''A'']" by (simp add: normalize_A)
    show "pathKey (map Some [str ''A'']) = str ''A''" by (simp add: pathKey_A)
    show "str ''A'' \<noteq> []" by fact
    show "(case map_of [(str ''Q'', [str ''Q''], [])] (str ''A'') of
             None \<Rightarrow> ([str ''A''], getFolderNode ?st [str ''A'']) | Some r \<Rightarrow> r)
           = ([str ''A''], [site_x, site_y])" using kq by (simp add: getFolderNode_A)
    show "filter (\<lambda>t. t \<noteq> []) (map (\<lambda>t. trim (or_empty t)) (it_titles ?i2)) = [str ''nope'', str ''X'']"
      by (simp add: or_empty_def trim_def is_ws_def str_def)
    show "filter (\<lambda>s. \<not> (case s_title s of None \<Rightarrow> False | Some t \<Rightarrow> t \<in> set [str ''nope'', str ''X'']))
            [site_x, site_y] = [site_y]" by (rule f)
  qed
  have m: "map_set (str ''A'') ([str ''A''], [site_y]) [(str ''Q'', [str ''Q''], [])]
             = [(str ''Q'', [str ''Q''], []), (str ''A'', [str ''A''], [site_y])]"
    using kq by simp
  have "batch_delete_loop ?st [?i1, ?i2] [] 0
          = batch_delete_loop ?st [?i2] [(str ''Q'', [str ''Q''], [])] 0"
    using s1 by (simp del: batch_delete_loop.simps)
  also have "\<dots> = batch_delete_loop ?st []
                      [(str ''Q'', [str ''Q''], []), (str ''A'', [str ''A''], [site_y])] 1"
    using s2 m by (simp del: batch_delete_loop.simps)
  finally show ?thesis by simp
qed

lemma batch_delete_put_example:
  "putFolderNodesBulk (Some (doc_of [cat_A [site_x, site_y], new_unc]))
     [\<lparr>segments = [Some (str ''Q'')], node_sites = []\<rparr>,
      \<lparr>segments = [Some (str ''A'')], node_sites = [site_y]\<rparr>]
   = Some (doc_of [cat_A [site_y], new_unc])"
proof -
  let ?uq = "\<lparr>segments = [Some (str ''Q'')], node_sites = []\<rparr>"
  let ?ua = "\<lparr>segments = [Some (str ''A'')], node_sites = [site_y]\<rparr>"
  let ?d = "[(str ''Q'', ?uq), (str ''A'', ?ua)]"
  have kq: "str ''Q'' \<noteq> []" "str ''A'' \<noteq> []" "str ''Q'' \<noteq> str ''A''" by (simp_all add: str_def)
  have d: "dedup_of [?uq, ?ua] [] = ?d"
    using kq by (simp add: pathKey_Q pathKey_A Let_def)
  have sq: "key_segments (str ''Q'') = [str ''Q'']" "key_segments (str ''A'') = [str ''A'']"
    by (simp_all add: key_segments_def str_def)
  have uq: "snd (updateNode ?d cs [str ''Q''] 0) = cs" if "cs = [cat_A ss, new_unc]" for cs ss
    by (rule updateNode_False_unchanged)
       (simp add: updateNode_resolves that, subst findNode.simps,
        simp add: cat_A_def new_unc_def UNC_TITLE_def str_def)
  have ua: "updateNode ?d [cat_A [site_x, site_y], new_unc] [str ''A''] 0
              = (True, [cat_A [site_y], new_unc])"
    using kq by (subst updateNode.simps) (simp add: pathKey_A cat_A_def set_sites_def)
  have "apply_entries ?d ?d [cat_A [site_x, site_y], new_unc] = [cat_A [site_y], new_unc]"
    by (simp add: sq uq ua Let_def)
  then show ?thesis
    using putFolderNodesBulk_doc_of [of "[?uq, ?ua]" "[cat_A [site_x, site_y], new_unc]"]
    by (simp only: d) simp
qed

lemma batch_delete_partial_success_example:
  "handleBatchDeleteSites (Some (doc_of [cat_A [site_x, site_y], new_unc]))
     [\<lparr>it_path = Some (PathString (str ''Q'')), it_segments = None, it_titles = [Some (str ''X'')]\<rparr>,
      \<lparr>it_path = Some (PathString (str ''A'')), it_segments = None,
       it_titles = [Some (str ''nope''), Some (str ''X'')]\<rparr>]
   = (Some 200, 1, Some (doc_of [cat_A [site_y], new_unc]))"
proof -
  have ok: "createSuccessResponse = Some 200"
    by (simp add: createSuccessResponse_def HTTP_STATUS_def)
  show ?thesis
    by (simp add: handleBatchDeleteSites_def batch_delete_loop_example Let_def
        batch_delete_put_example ok del: batch_delete_loop.simps)
qed

text \<open>
  Claim C7: in a batch delete every addressed site that exists is deleted, and the
  reported count is the number of entries actually removed. The handler reads the site
  list of the category through \<open>getFolderNode\<close>, which walks the segments as given, and
  writes through \<open>putFolderNodesBulk\<close>, which joins the segments with \<open>/\<close> and splits the
  key again. For the category titled \<open>x/y\<close>, addressed by the path array \<open>[x/y]\<close>, the
  handler removes \<open>site_x\<close> from its working copy and reports \<open>deleted: 1\<close>, while the write
  looks for a category \<open>x\<close> with a child \<open>y\<close>, finds none, and stores the snapshot
  unchanged: the site is still there.
\<close>

theorem C7_slash_in_path_count_mismatch:
  "handleBatchDeleteSites (Some (doc_of [cat_S [site_x], new_unc]))
     [\<lparr>it_path = Some (PathArray [Some (str ''x/y'')]), it_segments = None,
       it_titles = [Some (str ''X'')]\<rparr>]
   = (Some 200, 1, Some (doc_of [cat_S [site_x], new_unc]))"
proof -
  let ?u = "\<lparr>segments = [Some (str ''x/y'')], node_sites = []\<rparr>"
  have d: "dedup_of [?u] [] = [(str ''x/y'', ?u)]"
    using pathKey_xy by (simp add: Let_def) (simp add: str_def)
  have ap: "apply_entries [(str ''x/y'', ?u)] [(str ''x/y'', ?u)] [cat_S [site_x], new_unc]
              = [cat_S [site_x], new_unc]"
    by (rule apply_entries_unresolved) (simp add: key_segments_xy findNode_x_cat_S)
  have c: "putFolderNodesBulk (Some (doc_of [cat_S [site_x], new_unc])) [?u]
           = Some (doc_of [cat_S [site_x], new_unc])"
    using putFolderNodesBulk_doc_of [of "[?u]" "[cat_S [site_x], new_unc]"] by (simp only: d ap) simp
  have ok: "createSuccessResponse = Some 200"
    by (simp add: createSuccessResponse_def HTTP_STATUS_def)
  show ?thesis
    by (simp add: handleBatchDeleteSites_def loop_xy Let_def c ok del: batch_delete_loop.simps)
qed

text \<open>The reported count, and the site list of the category in the stored tree afterwards.\<close>

theorem C7_slash_in_path_count_mismatch_witness:
  "fst (snd (handleBatchDeleteSites (Some (doc_of [cat_S [site_x], new_unc]))
     [\<lparr>it_path = Some (PathArray [Some (str ''x/y'')]), it_segments = None,
       it_titles = [Some (str ''X'')]\<rparr>])) = 1
   \<and> getFolderNode (snd (snd (handleBatchDeleteSites (Some (doc_of [cat_S [site_x], new_unc]))
     [\<lparr>it_path = Some (PathArray [Some (str ''x/y'')]), it_segments = None,
       it_titles = [Some (str ''X'')]\<rparr>]))) [str ''x/y''] = [site_x]"
  using C7_slash_in_path_count_mismatch getFolderNode_xy by simp

section \<open>Index paths, title paths and id paths\<close>

lemma cat_B_A_C_B_unique: "forest_siblings_unique [cat_B_A, cat_C_B]"
  by (simp add: forest_siblings_unique_def titles_unique_def ids_unique_def cat_B_A_def cat_C_B_def
      truthy_def str_def cats_of_def)

text \<open>
  Claim C8, as stated: when titles are unique among siblings and ids are unique among
  siblings, the title path and the id path of a node resolve to the node that its index
  path resolves to. It fails when the id of one root category is the title of another:
  with the root categories (id \<open>B\<close>, title \<open>A\<close>) and (id \<open>C\<close>, title \<open>B\<close>), the index path
  \<open>[1]\<close> names the second category, its title path is \<open>[B]\<close>, and
  \<open>_findIndexPathByTitlePath\<close>, which matches a root category by title or by id, returns
  \<open>[0]\<close>, the first category.
\<close>

theorem C8_id_equals_title_counterexample:
  "forest_siblings_unique [cat_B_A, cat_C_B]
   \<and> findCategoryWithParentByIndex [cat_B_A, cat_C_B] [1] = Some (None, cat_C_B, 1)
   \<and> title_path [cat_B_A, cat_C_B] (map nat [1]) = [Some (str ''B'')]
   \<and> node_by_title_path [cat_B_A, cat_C_B] [Some (str ''B'')] = Some (None, cat_B_A, 0)"
proof -
  have a: "findCategoryWithParentByIndex [cat_B_A, cat_C_B] [1] = Some (None, cat_C_B, 1)"
    by (simp add: findCategoryWithParentByIndex_def)
  have b: "title_path [cat_B_A, cat_C_B] (map nat [1]) = [Some (str ''B'')]"
    by (simp add: cat_C_B_def)
  have c: "findIndexPathByTitlePath [cat_B_A, cat_C_B] [Some (str ''B'')] = Some [0]"
    by (simp add: findIndexPathByTitlePath_def cat_B_A_def or_else_def truthy_def str_def)
  have d: "findCategoryWithParentByIndex [cat_B_A, cat_C_B] [0] = Some (None, cat_B_A, 0)"
    by (simp add: findCategoryWithParentByIndex_def)
  have "node_by_title_path [cat_B_A, cat_C_B] [Some (str ''B'')] = Some (None, cat_B_A, 0)"
    by (simp add: node_by_title_path_def c d)
  with cat_B_A_C_B_unique a b show ?thesis by simp
qed

text \<open>
  Claim C8, amended: in every tree in which, among the direct siblings at every level,
  titles are pairwise different, ids (where present) are pairwise different, and no id is
  the title of another sibling, for every node that an index path reaches: the title path
  of the node resolves to the same index path, its id path (ids falling back to titles)
  resolves to its title path, and both locate the node that the index path locates.
\<close>

theorem C8_paths_resolve_same_node:
  assumes "forest_siblings_unique cats"
    and "forest_siblings_apart cats"
    and "findCategoryWithParentByIndex cats p = Some r"
  shows "findIndexPathByTitlePath cats (title_path cats (map nat p)) = Some p
       \<and> resolveTitlePath cats (id_path cats (map nat p)) = Some (title_path cats (map nat p))
       \<and> node_by_title_path cats (title_path cats (map nat p)) = Some r
       \<and> node_by_id_path cats (id_path cats (map nat p)) = Some r"
proof -
  from assms(3) obtain idx rest where p: "p = idx # rest"
    by (cases p) (simp_all add: findCategoryWithParentByIndex_def)
  from assms(3) p have r: "findByIndex_loop None cats (idx # rest) \<noteq> None"
    by (simp add: findCategoryWithParentByIndex_def)
  then have b: "0 \<le> idx" "nat idx < length cats" by (auto split: if_splits)
  let ?n = "cats ! nat idx"
  have u: "titles_unique cats" "ids_unique cats" "siblings_unique ?n"
    using assms(1) b(2) by (auto simp: forest_siblings_unique_def)
  have a: "ids_apart_from_titles cats" "siblings_apart ?n"
    using assms(2) b(2) by (auto simp: forest_siblings_apart_def)
  have nx: "rest = [] \<or> findByIndex_loop (Some ?n) (kids ?n) rest \<noteq> None"
    using r b by (auto simp: Let_def split: if_splits)
  have tp: "title_path cats (map nat p) = c_title ?n # title_path (kids ?n) (map nat rest)"
    using title_path_nth [OF b(2)] p by simp
  have ip: "id_path cats (map nat p)
              = or_else (c_id ?n) (c_title ?n) # id_path (kids ?n) (map nat rest)"
    using id_path_nth [OF b(2)] p by simp
  have fr: "findIndex (\<lambda>c. c_title c = c_title ?n \<or> or_else (c_id c) (c_title c) = c_title ?n) cats
              = Some (nat idx)"
    by (rule findIndex_root [OF u(1,2) a(1) b(2)])
  have pc: "pickChild cats (or_else (c_id ?n) (c_title ?n)) = Some ?n"
    by (rule pickChild_key [OF u(1,2) a(1) b(2)])
  have t1: "titlePath_loop ?n (title_path (kids ?n) (map nat rest)) = Some rest"
    by (rule titlePath_loop_index [OF u(3) nx])
  have t2: "resolveTitlePath_loop ?n (id_path (kids ?n) (map nat rest))
              = Some (title_path (kids ?n) (map nat rest))"
    by (rule resolveTitlePath_loop_index [OF u(3) a(2) nx])
  have i: "findIndexPathByTitlePath cats (title_path cats (map nat p)) = Some p"
    unfolding tp using fr t1 b(1) p by (simp add: findIndexPathByTitlePath_def)
  have ii: "resolveTitlePath cats (id_path cats (map nat p)) = Some (title_path cats (map nat p))"
    unfolding tp ip using pc t2 by (simp add: resolveTitlePath_def)
  have iii: "node_by_title_path cats (title_path cats (map nat p)) = Some r"
    using i assms(3) by (simp add: node_by_title_path_def)
  have "node_by_id_path cats (id_path cats (map nat p)) = Some r"
    using ii iii by (simp add: node_by_id_path_def)
  with i ii iii show ?thesis by simp
qed


theorem C8_paths_resolve_same_node_witness:
  "forest_siblings_unique [cat_A [], new_unc]
   \<and> forest_siblings_apart [cat_A [], new_unc]
   \<and> findCategoryWithParentByIndex [cat_A [], new_unc] [1] = Some (None, new_unc, 1)
   \<and> findIndexPathByTitlePath [cat_A [], new_unc] (title_path [cat_A [], new_unc] (map nat [1]))
       = Some [1]
   \<and> resolveTitlePath [cat_A [], new_unc] (id_path [cat_A [], new_unc] (map nat [1]))
       = Some (title_path [cat_A [], new_unc] (map nat [1]))
   \<and> node_by_title_path [cat_A [], new_unc] (title_path [cat_A [], new_unc] (map nat [1]))
       = Some (None, new_unc, 1)
   \<and> node_by_id_path [cat_A [], new_unc] (id_path [cat_A [], new_unc] (map nat [1]))
       = Some (None, new_unc, 1)"
proof -
  have ne: "cat_A [] \<noteq> new_unc"
    by (simp add: cat_A_def new_unc_def)
  have a: "forest_siblings_unique [cat_A [], new_unc]"
    by (simp add: forest_siblings_unique_def titles_unique_def ids_unique_def cat_A_def new_unc_def
        truthy_def str_def cats_of_def UNC_ID_def UNC_TITLE_def)
  have b: "forest_siblings_apart [cat_A [], new_unc]"
    using ne
    by (simp add: forest_siblings_apart_def ids_apart_from_titles_def)
       (simp add: cat_A_def new_unc_def str_def cats_of_def UNC_ID_def UNC_TITLE_def
          ids_apart_from_titles_def)
  have c: "findCategoryWithParentByIndex [cat_A [], new_unc] [1] = Some (None, new_unc, 1)"
    by (simp add: findCategoryWithParentByIndex_def)
  show ?thesis
    using a b c C8_paths_resolve_same_node [OF a b c] by simp
qed

section \<open>The reserved category in the tree that is stored\<close>

lemma walk_A_bare:
  "walk [cat_A [], unc_bare] [cat_A [site_x], repair_unc unc_bare] []
     = [\<lparr>segments = [Some (str ''A'')], node_sites = [site_x]\<rparr>]"
  by (simp add: walk_Nil walk_Cons byId_get_def cat_key_def or_else_def truthy_def unc_bare_def
      repair_unc_def cat_A_def cats_of_def UNC_ID_def UNC_TITLE_def str_def)

lemma ensure_A_bare:
  "ensureUncategorized [cat_A [site_x], unc_bare] = [cat_A [site_x], repair_unc unc_bare]"
  by (simp add: ensureUncategorized_def is_unc_def unc_bare_def repair_unc_def cat_A_def
      UNC_ID_def UNC_TITLE_def str_def)

lemma save_A_bare:
  "handleSaveAdminData (Some (doc_of [cat_A [], unc_bare])) (Some (doc_of [cat_A [site_x], unc_bare]))
     = BulkWrite [\<lparr>segments = [Some (str ''A'')], node_sites = [site_x]\<rparr>]"
proof -
  have same: "isSameStructure (Some [cat_A [], unc_bare]) (Some [cat_A [site_x], repair_unc unc_bare])"
    "isSameMeta (Some [cat_A [], unc_bare]) (Some [cat_A [site_x], repair_unc unc_bare])"
    by (simp_all add: isSameStructure_def isSameMeta_def cat_A_def unc_bare_def repair_unc_def
        cats_of_def truthy_def UNC_ID_def UNC_TITLE_def str_def)
  show ?thesis
    using same
    by (simp add: handleSaveAdminData_def getNavigationData_def doc_of_def ensure_A_bare
        cats_of_def walk_A_bare)
qed

lemma put_A:
  assumes "findIndex (\<lambda>c. c_title c = Some (str ''A'')) [cat_A [], u] = Some 0"
  shows "putFolderNodesBulk (Some (doc_of [cat_A [], u]))
           [\<lparr>segments = [Some (str ''A'')], node_sites = [site_x]\<rparr>]
         = Some (doc_of [cat_A [site_x], u])"
proof -
  let ?u = "\<lparr>segments = [Some (str ''A'')], node_sites = [site_x]\<rparr>"
  let ?d = "[(str ''A'', ?u)]"
  have k: "str ''A'' \<noteq> []" by (simp add: str_def)
  have d: "dedup_of [?u] [] = ?d"
    using k by (simp add: pathKey_A Let_def)
  have sa: "key_segments (str ''A'') = [str ''A'']"
    by (simp add: key_segments_def str_def)
  have ua: "updateNode ?d [cat_A [], u] [str ''A''] 0 = (True, [cat_A [site_x], u])"
    using assms by (subst updateNode.simps) (simp add: pathKey_A cat_A_def set_sites_def)
  have "apply_entries ?d ?d [cat_A [], u] = [cat_A [site_x], u]"
    by (simp add: sa ua Let_def)
  then show ?thesis
    using putFolderNodesBulk_doc_of [of "[?u]" "[cat_A [], u]"] by (simp only: d) simp
qed

text \<open>
  Claim C9, as stated: every tree accepted by the save operation is persisted with the
  reserved category present, complete and last. It fails in two ways, both by the way the
  handler is built. On the first save, with no stored snapshot, the handler writes
  \<open>body.data\<close> before \<open>ensureUncategorized\<close> runs, so a tree with an empty root list is
  stored as it is. And when a snapshot is stored, the repaired incoming tree is written
  only by a full-document write: the comparisons read a missing \<open>sites\<close> or \<open>children\<close>
  array as an empty one, so a stored reserved category without them does not count as a
  change, and the partial write stores site lists only. Below, the stored reserved
  category has an empty icon and neither \<open>sites\<close> nor \<open>children\<close>; the incoming tree
  changes the site list of \<open>A\<close>; the mode is \<open>bulk-sites\<close>, and the reserved category stored
  afterwards is as incomplete as before.
\<close>

theorem C9_reserved_incomplete_counterexample:
  "handleSaveAdminData None (Some \<lparr>profile = None, categories = Some []\<rparr>)
     = InitWrite \<lparr>profile = None, categories = Some []\<rparr>
   \<and> \<not> reserved_last \<lparr>profile = None, categories = Some []\<rparr>
   \<and> handleSaveAdminData (Some (doc_of [cat_A [], unc_bare]))
        (Some (doc_of [cat_A [site_x], unc_bare]))
       = BulkWrite [\<lparr>segments = [Some (str ''A'')], node_sites = [site_x]\<rparr>]
   \<and> stored_after (Some (doc_of [cat_A [], unc_bare]))
        (handleSaveAdminData (Some (doc_of [cat_A [], unc_bare]))
           (Some (doc_of [cat_A [site_x], unc_bare])))
       = Some (doc_of [cat_A [site_x], unc_bare])
   \<and> \<not> reserved_last (doc_of [cat_A [site_x], unc_bare])"
proof -
  have a: "handleSaveAdminData None (Some \<lparr>profile = None, categories = Some []\<rparr>)
     = InitWrite \<lparr>profile = None, categories = Some []\<rparr>
   \<and> \<not> reserved_last \<lparr>profile = None, categories = Some []\<rparr>"
    by (simp add: handleSaveAdminData_def getNavigationData_def reserved_last_def)
  have f: "findIndex (\<lambda>c. c_title c = Some (str ''A'')) [cat_A [], unc_bare] = Some 0"
    by (simp add: cat_A_def)
  have b: "stored_after (Some (doc_of [cat_A [], unc_bare]))
        (handleSaveAdminData (Some (doc_of [cat_A [], unc_bare]))
           (Some (doc_of [cat_A [site_x], unc_bare])))
       = Some (doc_of [cat_A [site_x], unc_bare])"
    by (simp only: save_A_bare stored_after.simps put_A [OF f])
  have c: "\<not> reserved_last (doc_of [cat_A [site_x], unc_bare])"
    by (simp add: reserved_last_def doc_of_def unc_complete_def unc_bare_def)
  from a b c save_A_bare show ?thesis by simp
qed

text \<open>
  Claim C9, amended: when a snapshot is already stored and the incoming \<open>categories\<close> is an
  array, the save operation leaves a stored tree whose last root category is the reserved
  one (matched by id or title), whichever write it issues. That category has \<open>icon\<close>,
  \<open>sites\<close> and \<open>children\<close> present when the write is a full-document write, and also when
  the reserved category stored before was already complete.
\<close>

theorem C9_reserved_after_save:
  assumes "getNavigationData stored = Some currentData"
    and "categories data = Some cats"
  shows "\<exists>d. stored_after stored (handleSaveAdminData stored (Some data)) = Some d
           \<and> reserved_present_last d
           \<and> (full_write (handleSaveAdminData stored (Some data)) \<noteq> None
                \<or> unc_complete (last (cats_of (categories currentData)))
              \<longrightarrow> reserved_last d)"
proof -
  let ?new = "ensureUncategorized cats"
  let ?incoming = "data\<lparr>categories := Some ?new\<rparr>"
  have i: "data\<lparr>categories := map_option ensureUncategorized (categories data)\<rparr> = ?incoming"
    using assms(2) by simp
  obtain old where s: "stored = Some currentData" "categories currentData = Some old"
    using assms(1) by (auto simp: getNavigationData_def split: option.splits)
  have c: "cats_of (Some xs) = xs" for xs :: "category list"
    by (simp add: cats_of_def)
  have inc: "categories ?incoming = Some ?new" by simp
  have full: "reserved_last ?incoming" "reserved_present_last ?incoming"
    using ensure_last [of cats]
    by (simp_all add: reserved_last_def reserved_present_last_def unc_complete_def)
  show ?thesis
  proof (cases "isSameStructure (categories currentData) (categories ?incoming)
                \<and> isSameMeta (categories currentData) (categories ?incoming)")
    case False
    then have "handleSaveAdminData stored (Some data) = SnapshotWrite ?incoming
             \<or> handleSaveAdminData stored (Some data) = SnapshotMetaWrite ?incoming"
      using assms(1) by (auto simp: handleSaveAdminData_def Let_def i)
    then show ?thesis using full by auto
  next
    case True
    then have "map norm_structure old = map norm_structure ?new"
      using s(2) inc by (simp add: isSameStructure_def c)
    then have o: "old \<noteq> []" "is_unc (last old)"
      using same_structure_last_unc [of old ?new] ensure_last [of cats]
      by (simp_all add: unc_complete_def)
    let ?updates = "walk old ?new []"
    show ?thesis
    proof (cases "?updates = []")
      case e: True
      then have "handleSaveAdminData stored (Some data) = NoopSkip"
        using True assms(1) s(2) by (simp add: handleSaveAdminData_def Let_def c i)
      then show ?thesis
        using s o by (simp add: reserved_present_last_def reserved_last_def c)
    next
      case e: False
      then have h: "handleSaveAdminData stored (Some data) = BulkWrite ?updates"
        using True assms(1) s(2) by (simp add: handleSaveAdminData_def Let_def c i)
      obtain d where d: "putFolderNodesBulk stored ?updates = Some d"
        "categories d \<noteq> None"
        "map erase_sites (cats_of (categories d)) = map erase_sites old"
        "\<forall>i < length old. c_sites (old ! i) \<noteq> None \<longrightarrow> c_sites (cats_of (categories d) ! i) \<noteq> None"
        using putFolderNodesBulk_keeps_structure [OF assms(1), of ?updates] s(2) by (auto simp: c)
      obtain new where n: "categories d = Some new" using d(2) by auto
      have "new \<noteq> [] \<and> is_unc (last new) \<and> (unc_complete (last old) \<longrightarrow> unc_complete (last new))"
        using complete_kept [of new old] d(3,4) o n by (simp add: c)
      then show ?thesis
        using h d(1) n s(2) by (simp add: reserved_present_last_def reserved_last_def c)
    qed
  qed
qed

theorem C9_reserved_after_save_witness:
  "getNavigationData (Some (doc_of [cat_A [], new_unc])) = Some (doc_of [cat_A [], new_unc])
   \<and> categories (doc_of [cat_A [site_x], new_unc]) = Some [cat_A [site_x], new_unc]
   \<and> full_write (handleSaveAdminData (Some (doc_of [cat_A [], new_unc]))
        (Some (doc_of [cat_A [site_x], new_unc]))) = None
   \<and> stored_after (Some (doc_of [cat_A [], new_unc]))
        (handleSaveAdminData (Some (doc_of [cat_A [], new_unc]))
           (Some (doc_of [cat_A [site_x], new_unc])))
       = Some (doc_of [cat_A [site_x], new_unc])
   \<and> reserved_present_last (doc_of [cat_A [site_x], new_unc])
   \<and> reserved_last (doc_of [cat_A [site_x], new_unc])"
proof -
  let ?old = "doc_of [cat_A [], new_unc]"
  let ?new = "doc_of [cat_A [site_x], new_unc]"
  have a: "getNavigationData (Some ?old) = Some ?old"
    by (rule getNavigationData_doc_of)
  have b: "categories ?new = Some [cat_A [site_x], new_unc]"
    by (rule categories_doc_of)
  have e: "ensureUncategorized [cat_A [site_x], new_unc] = [cat_A [site_x], new_unc]"
    using ensure_fixpoint [of "[cat_A [site_x]]"] not_unc_cat_A by simp
  have s: "map erase_sites [cat_A [], new_unc] = map erase_sites [cat_A [site_x], new_unc]"
    by (simp add: cat_A_def)
  have w: "walk [cat_A [], new_unc] [cat_A [site_x], new_unc] []
             = [\<lparr>segments = [Some (str ''A'')], node_sites = [site_x]\<rparr>]"
    by (simp add: walk_Nil walk_Cons byId_get_def cat_key_def or_else_def truthy_def new_unc_def
        cat_A_def cats_of_def UNC_ID_def UNC_TITLE_def str_def)
  have h: "handleSaveAdminData (Some ?old) (Some ?new)
             = BulkWrite [\<lparr>segments = [Some (str ''A'')], node_sites = [site_x]\<rparr>]"
    using erase_eq_same [OF s]
    by (simp add: handleSaveAdminData_def getNavigationData_def doc_of_def e w
        isSameStructure_def isSameMeta_def cats_of_def)
  have f: "findIndex (\<lambda>c. c_title c = Some (str ''A'')) [cat_A [], new_unc] = Some 0"
    by (simp add: cat_A_def)
  have p: "stored_after (Some ?old) (handleSaveAdminData (Some ?old) (Some ?new)) = Some ?new"
    by (simp only: h stored_after.simps put_A [OF f])
  have fw: "full_write (handleSaveAdminData (Some ?old) (Some ?new)) = None"
    by (simp only: h full_write.simps)
  have u: "unc_complete (last (cats_of (categories ?old)))"
    by (simp add: categories_doc_of cats_of_def complete_new)
  from C9_reserved_after_save [OF a b] p u
  have "reserved_present_last ?new \<and> reserved_last ?new" by auto
  with a b fw p show ?thesis by simp
qed

section \<open>Adding a site without a description\<close>

text \<open>
  Claim C10, as stated: an add-site request with a valid target, a title and a url but no
  description succeeds, and the description of the created entry is a placeholder derived
  from the title. \<open>handleAddSite\<close> requires \<open>body.description\<close>: the request below is
  answered with status 400 and nothing is added.
\<close>

theorem C10_missing_description_counterexample:
  "handleAddSite (\<lambda>u. None) [cat_A []]
     \<lparr>b_categoryId = Some (str ''a''), b_title = Some (str ''X''),
      b_url = Some (str ''http://x''), b_description = None, b_icon = None\<rparr>
   = (Some 400, [cat_A []])"
  by (simp add: handleAddSite_def truthy_def createErrorResponse_def HTTP_STATUS_def)

text \<open>
  Claim C10, amended: for every add-site request with a non-empty title and url and no
  description, the single-site endpoint rejects the request with status 400 and leaves the
  tree unchanged; the batch endpoint, when the url is not yet among the sites of the
  target, appends an entry whose description is the empty string; and the placeholder
  derived from the title, the title followed by \<open>SITE_SUFFIX\<close>, is what the add-site form of
  the admin client sends as description when the field is left empty.
\<close>

theorem C10_missing_description:
  assumes "\<not> truthy (b_description body)"
    and "truthy (b_title body)"
    and "truthy (b_url body)"
    and "canInsertSite nodeSites
           \<lparr>i_title = b_title body, i_url = b_url body, i_description = b_description body,
            i_icon = b_icon body\<rparr>"
  shows "handleAddSite favicon_of cats body = (Some 400, cats)
       \<and> batch_add_item favicon_of nodeSites
           \<lparr>i_title = b_title body, i_url = b_url body, i_description = b_description body,
            i_icon = b_icon body\<rparr>
         = (nodeSites @
              [[(str ''title'', JStr (or_empty (b_title body))), (str ''description'', JStr []),
                (str ''url'', JStr (or_empty (b_url body))),
                (str ''icon'', JStr (if truthy (b_icon body) then or_empty (b_icon body)
                                     else GLOBE_ICON))]
               @ opt_prop ''favicon'' (favicon_of (or_empty (b_url body)))], 1)
       \<and> finalDescription [] (or_empty (b_title body)) = or_empty (b_title body) @ SITE_SUFFIX"
proof -
  have a: "handleAddSite favicon_of cats body = (Some 400, cats)"
    using assms(1) by (simp add: handleAddSite_def createErrorResponse_def HTTP_STATUS_def)
  have d: "or_empty (b_description body) = []"
    using assms(1) by (simp add: truthy_def or_empty_def split: option.splits)
  have b: "batch_add_item favicon_of nodeSites
           \<lparr>i_title = b_title body, i_url = b_url body, i_description = b_description body,
            i_icon = b_icon body\<rparr>
         = (nodeSites @
              [[(str ''title'', JStr (or_empty (b_title body))), (str ''description'', JStr []),
                (str ''url'', JStr (or_empty (b_url body))),
                (str ''icon'', JStr (if truthy (b_icon body) then or_empty (b_icon body)
                                     else GLOBE_ICON))]
               @ opt_prop ''favicon'' (favicon_of (or_empty (b_url body)))], 1)"
    using assms(2,3,4) d
    by (auto simp: batch_add_item_def opt_prop_def truthy_def or_empty_def split: option.splits)
  have c: "finalDescription [] (or_empty (b_title body)) = or_empty (b_title body) @ SITE_SUFFIX"
    by (simp add: finalDescription_def)
  from a b c show ?thesis by simp
qed

theorem C10_missing_description_witness:
  "\<not> truthy (b_description \<lparr>b_categoryId = Some (str ''a''), b_title = Some (str ''X''),
      b_url = Some (str ''http://x''), b_description = None, b_icon = None\<rparr>)
   \<and> canInsertSite []
        \<lparr>i_title = Some (str ''X''), i_url = Some (str ''http://x''), i_description = None,
         i_icon = None\<rparr>
   \<and> handleAddSite (\<lambda>u. None) [cat_A []]
        \<lparr>b_categoryId = Some (str ''a''), b_title = Some (str ''X''),
         b_url = Some (str ''http://x''), b_description = None, b_icon = None\<rparr>
       = (Some 400, [cat_A []])
   \<and> batch_add_item (\<lambda>u. None) []
        \<lparr>i_title = Some (str ''X''), i_url = Some (str ''http://x''), i_description = None,
         i_icon = None\<rparr>
       = ([[(str ''title'', JStr (str ''X'')), (str ''description'', JStr []),
             (str ''url'', JStr (str ''http://x'')), (str ''icon'', JStr GLOBE_ICON)]], 1)
   \<and> finalDescription [] (str ''X'') = str ''X'' @ SITE_SUFFIX"
proof -
  let ?body = "\<lparr>b_categoryId = Some (str ''a''), b_title = Some (str ''X''),
      b_url = Some (str ''http://x''), b_description = None, b_icon = None\<rparr>"
  have h1: "\<not> truthy (b_description ?body)"
    by (simp add: truthy_def)
  have h2: "truthy (b_title ?body)" "truthy (b_url ?body)"
    by (simp_all add: truthy_def str_def)
  have t: "trim (str ''http://x'') = str ''http://x''"
    by (simp add: trim_def is_ws_def str_def)
  have h4: "canInsertSite []
        \<lparr>i_title = b_title ?body, i_url = b_url ?body, i_description = b_description ?body,
         i_icon = b_icon ?body\<rparr>"
    using h2(2) by (simp add: canInsertSite_def findSiteIndexByUrl_def Let_def)
  from C10_missing_description [OF h1 h2 h4, of "\<lambda>u. None" "[cat_A []]"] h1 h4
  show ?thesis by (simp add: truthy_def or_empty_def opt_prop_def)
qed

end
